theory Spec2Isabelle
  imports Main "HOL-Library.Char_ord" "HOL-Library.List_Lexorder" "HOL-Library.Product_Lexorder"
begin

section \<open>Machine integers\<close>

text \<open>
  The program computes distances in the C++ type \<open>int\<close> (32 bits, two's complement).
  Values are modelled as \<open>int\<close> and the one addition of the program is followed by
  \<open>wrap32\<close>, the wrap-around of the usual targets (the C++ standard leaves signed
  overflow undefined).
\<close>

definition INT_MAX :: int where
  "INT_MAX = 2147483647"

definition INT_MIN :: int where
  "INT_MIN = - 2147483648"

definition wrap32 :: "int \<Rightarrow> int" where
  "wrap32 x = (x + 2147483648) mod 4294967296 - 2147483648"

section \<open>Ordered containers\<close>

text \<open>
  \<open>std::set<T>\<close> is a strictly increasing list; \<open>std::map<std::string, V>\<close> is an
  association list with strictly increasing keys. Strings are compared byte by byte,
  a proper prefix first; pairs are compared lexicographically.
\<close>

fun set_insert :: "'a::linorder \<Rightarrow> 'a list \<Rightarrow> 'a list" where
  "set_insert x [] = [x]"
| "set_insert x (y # ys) =
     (if x < y then x # y # ys
      else if x = y then y # ys
      else y # set_insert x ys)"

type_synonym edge = "string \<times> int"
type_synonym Graph = "(string \<times> edge list) list"

text \<open>\<open>graph[k]\<close> followed by a change \<open>f\<close> of the referenced edge set: the entry is
  created empty when the key is missing.\<close>

fun graph_at :: "(edge list \<Rightarrow> edge list) \<Rightarrow> string \<Rightarrow> Graph \<Rightarrow> Graph" where
  "graph_at f k [] = [(k, f [])]"
| "graph_at f k ((k', es) # g) =
     (if k < k' then (k, f []) # (k', es) # g
      else if k = k' then (k', f es) # g
      else (k', es) # graph_at f k g)"

definition keys :: "Graph \<Rightarrow> string set" where
  "keys g = fst ` set g"

section \<open>Reading the edge list\<close>

definition isspace :: "char \<Rightarrow> bool" where
  "isspace c = (c = CHR '' '' \<or> c = CHR 0x09 \<or> c = CHR 0x0A \<or> c = CHR 0x0B
      \<or> c = CHR 0x0C \<or> c = CHR 0x0D)"

definition isdigit :: "char \<Rightarrow> bool" where
  "isdigit c = (CHR ''0'' \<le> c \<and> c \<le> CHR ''9'')"

text \<open>\<open>ss >> word\<close>: skips white space and reads up to the next white space; fails on
  an empty read. The result is the word and the rest of the stream.\<close>

definition extract_string :: "string \<Rightarrow> (string \<times> string) option" where
  "extract_string inp =
     (let s = dropWhile isspace inp;
          tok = takeWhile (\<lambda>c. \<not> isspace c) s
      in if tok = [] then None else Some (tok, dropWhile (\<lambda>c. \<not> isspace c) s))"

definition decimal :: "string \<Rightarrow> int" where
  "decimal ds = foldl (\<lambda>a c. 10 * a + (int (of_char c) - 48)) 0 ds"

text \<open>\<open>ss >> distance\<close>: skips white space, reads an optional sign and the digits
  that follow; fails when there is no digit or the value does not fit an \<open>int\<close>.\<close>

definition extract_int :: "string \<Rightarrow> int option" where
  "extract_int inp =
     (let s = dropWhile isspace inp;
          neg = (s \<noteq> [] \<and> hd s = CHR ''-'');
          body = (if s \<noteq> [] \<and> (hd s = CHR ''-'' \<or> hd s = CHR ''+'') then tl s else s);
          ds = takeWhile isdigit body;
          v = (if neg then - decimal ds else decimal ds)
      in if ds = [] \<or> v < INT_MIN \<or> INT_MAX < v then None else Some v)"

definition read_edge :: "string \<Rightarrow> (string \<times> string \<times> int) option" where
  "read_edge line =
     (case extract_string line of
        None \<Rightarrow> None
      | Some (source, r1) \<Rightarrow>
          (case extract_string r1 of
             None \<Rightarrow> None
           | Some (destination, r2) \<Rightarrow>
               (case extract_int r2 of
                  None \<Rightarrow> None
                | Some distance \<Rightarrow> Some (source, destination, distance))))"

definition add_line :: "Graph \<Rightarrow> string \<Rightarrow> Graph" where
  "add_line graph line =
     (case read_edge line of
        None \<Rightarrow> graph
      | Some (source, destination, distance) \<Rightarrow>
          graph_at id destination (graph_at (set_insert (destination, distance)) source graph))"

definition loadFromFile :: "string list \<Rightarrow> Graph" where
  "loadFromFile lines = foldl add_line [] lines"

section \<open>The shortest-path engine\<close>

type_synonym Paths = "string \<rightharpoonup> int \<times> string"
type_synonym frontier = "(int \<times> string) list"

text \<open>\<open>paths[k]\<close> creates the record \<open>(0, "")\<close> when the key is missing.\<close>

definition paths_ref :: "Paths \<Rightarrow> string \<Rightarrow> Paths" where
  "paths_ref P k = (case P k of None \<Rightarrow> P(k \<mapsto> (0, [])) | Some r \<Rightarrow> P)"

definition paths_get :: "Paths \<Rightarrow> string \<Rightarrow> int \<times> string" where
  "paths_get P k = (case P k of None \<Rightarrow> (0, []) | Some r \<Rightarrow> r)"

definition init_paths :: "Graph \<Rightarrow> string \<Rightarrow> Paths" where
  "init_paths graph start =
     fold (\<lambda>node P. if fst node = start then P(fst node \<mapsto> (0, []))
                     else P(fst node \<mapsto> (INT_MAX, []))) graph Map.empty"

text \<open>One turn of the inner loop, for the edge \<open>neighbor\<close> of \<open>current\<close>.\<close>

definition relax :: "string \<Rightarrow> edge \<Rightarrow> Paths \<times> frontier \<Rightarrow> Paths \<times> frontier" where
  "relax current neighbor st =
     (let P1 = paths_ref (fst st) current;
          newDistance = wrap32 (fst (paths_get P1 current) + snd neighbor);
          P2 = paths_ref P1 (fst neighbor)
      in if newDistance < fst (paths_get P2 (fst neighbor))
         then (P2(fst neighbor \<mapsto> (newDistance, current)),
               set_insert (newDistance, fst neighbor) (snd st))
         else (P2, snd st))"

definition dests :: "Graph \<Rightarrow> string set" where
  "dests g = (\<Union>node \<in> set g. fst ` set (snd node))"

definition loop_measure :: "Graph \<times> Paths \<times> frontier \<Rightarrow> nat" where
  "loop_measure a =
     (case a of (g, P, q) \<Rightarrow>
        (\<Sum>v \<in> dests g. nat (fst (paths_get P v) + 2147483648)) + length q)"

lemma length_set_insert: "length (set_insert x q) \<le> Suc (length q)"
  by (induction q) auto

lemma wrap32_lower: "- 2147483648 \<le> wrap32 x"
  by (simp add: wrap32_def)

lemma wrap32_upper: "wrap32 x \<le> 2147483647"
proof -
  have "(x + 2147483648) mod 4294967296 < 4294967296" by simp
  then show ?thesis unfolding wrap32_def by linarith
qed

lemma paths_get_ref: "paths_get (paths_ref P k) x = paths_get P x"
  by (auto simp: paths_get_def paths_ref_def split: option.splits)

lemma finite_dests: "finite (dests g)"
  by (simp add: dests_def)

lemma relax_measure:
  assumes "fst e \<in> dests g"
  shows "loop_measure (g, relax c e (P, q)) \<le> loop_measure (g, P, q)"
proof -
  define v where "v = fst e"
  define nd where "nd = wrap32 (fst (paths_get P c) + snd e)"
  define F where "F = (\<lambda>P x. nat (fst (paths_get P x) + 2147483648))"
  show ?thesis
  proof (cases "nd < fst (paths_get P v)")
    case False
    then have "relax c e (P, q) = (paths_ref (paths_ref P c) v, q)"
      by (simp add: relax_def Let_def paths_get_ref nd_def v_def)
    then show ?thesis by (simp add: loop_measure_def paths_get_ref)
  next
    case True
    define P' where "P' = (paths_ref (paths_ref P c) v)(v \<mapsto> (nd, c))"
    have r: "relax c e (P, q) = (P', set_insert (nd, v) q)"
      using True by (simp add: relax_def Let_def paths_get_ref nd_def v_def P'_def)
    have other: "F P' x = F P x" if "x \<noteq> v" for x
    proof -
      have "paths_get P' x = paths_get (paths_ref (paths_ref P c) v) x"
        using that by (simp add: P'_def paths_get_def)
      then show ?thesis by (simp add: F_def paths_get_ref)
    qed
    have "paths_get P' v = (nd, c)" by (simp add: P'_def paths_get_def)
    moreover have "- 2147483648 \<le> nd" by (simp add: nd_def wrap32_lower)
    ultimately have at: "Suc (F P' v) \<le> F P v" using True by (simp add: F_def)
    have vin: "v \<in> dests g" using assms by (simp add: v_def)
    have "sum (F P') (dests g) = F P' v + sum (F P') (dests g - {v})"
      by (rule sum.remove [OF finite_dests vin])
    also have "sum (F P') (dests g - {v}) = sum (F P) (dests g - {v})"
      by (rule sum.cong) (auto simp: other)
    finally have "Suc (sum (F P') (dests g)) \<le> F P v + sum (F P) (dests g - {v})"
      using at by simp
    also have "\<dots> = sum (F P) (dests g)"
      by (rule sum.remove [OF finite_dests vin, symmetric])
    finally have "Suc (sum (F P') (dests g)) \<le> sum (F P) (dests g)" .
    moreover have "length (set_insert (nd, v) q) \<le> Suc (length q)"
      by (rule length_set_insert)
    ultimately show ?thesis by (simp add: r loop_measure_def F_def)
  qed
qed

lemma fold_relax_measure:
  "fst ` set es \<subseteq> dests g \<Longrightarrow>
     loop_measure (g, fold (relax c) es st) \<le> loop_measure (g, st)"
proof (induction es arbitrary: st)
  case Nil
  then show ?case by simp
next
  case (Cons e es)
  obtain P q where st: "st = (P, q)" by (cases st)
  have "loop_measure (g, fold (relax c) es (relax c e st)) \<le> loop_measure (g, relax c e st)"
    using Cons by simp
  also have "\<dots> \<le> loop_measure (g, st)"
    using Cons.prems relax_measure [of e g c P q] by (simp add: st)
  finally show ?case by simp
qed

lemma map_of_dests: "map_of g k = Some es \<Longrightarrow> fst ` set es \<subseteq> dests g"
  by (force simp: dests_def dest!: map_of_SomeD)

text \<open>The \<open>while\<close> loop of \<open>Dijkstra\<close>: the least pair leaves the frontier; a node with
  no record in the graph ends the loop (\<open>break\<close>).\<close>

function dijkstra_loop :: "Graph \<Rightarrow> Paths \<Rightarrow> frontier \<Rightarrow> Paths" where
  "dijkstra_loop g P [] = P"
| "dijkstra_loop g P (entry # q) =
     (case map_of g (snd entry) of
        Some es \<Rightarrow>
          (let st = fold (relax (snd entry)) es (P, q) in dijkstra_loop g (fst st) (snd st))
      | None \<Rightarrow> P)"
  by pat_completeness auto
termination
proof (relation "measure loop_measure")
  show "wf (measure loop_measure)" by simp
next
  fix g :: Graph and P :: Paths and entry :: "int \<times> string" and q es st
  assume es: "map_of g (snd entry) = Some es"
    and st: "st = fold (relax (snd entry)) es (P, q)"
  have "loop_measure (g, fold (relax (snd entry)) es (P, q)) \<le> loop_measure (g, P, q)"
    by (rule fold_relax_measure [OF map_of_dests [OF es]])
  also have "\<dots> < loop_measure (g, P, entry # q)"
    by (simp add: loop_measure_def)
  finally show "((g, fst st, snd st), g, P, entry # q) \<in> measure loop_measure"
    by (simp add: st)
qed

definition Dijkstra :: "Graph \<Rightarrow> string \<Rightarrow> string \<Rightarrow> Paths" where
  "Dijkstra graph start dest = dijkstra_loop graph (init_paths graph start) [(0, start)]"

subsection \<open>The sums and the frontiers of a run\<close>

text \<open>The one addition of the engine is \<open>paths[current].first + neighbor.second\<close>. The
  next predicates follow the loops of \<open>Dijkstra\<close> turn by turn and say that every sum
  that the run forms, taken as a number before it is stored in an \<open>int\<close>, is below a
  limit.\<close>

definition sum_below :: "int \<Rightarrow> string \<Rightarrow> edge \<Rightarrow> Paths \<times> frontier \<Rightarrow> bool" where
  "sum_below lim current neighbor st =
     (fst (paths_get (paths_ref (fst st) current) current) + snd neighbor < lim)"

fun turn_sums_below :: "int \<Rightarrow> string \<Rightarrow> edge list \<Rightarrow> Paths \<times> frontier \<Rightarrow> bool" where
  "turn_sums_below lim current [] st = True"
| "turn_sums_below lim current (neighbor # es) st =
     (sum_below lim current neighbor st
      \<and> turn_sums_below lim current es (relax current neighbor st))"

function run_sums_below :: "int \<Rightarrow> Graph \<Rightarrow> Paths \<Rightarrow> frontier \<Rightarrow> bool" where
  "run_sums_below lim g P [] = True"
| "run_sums_below lim g P (entry # q) =
     (case map_of g (snd entry) of
        Some es \<Rightarrow>
          (let st = fold (relax (snd entry)) es (P, q)
           in turn_sums_below lim (snd entry) es (P, q) \<and> run_sums_below lim g (fst st) (snd st))
      | None \<Rightarrow> True)"
  by pat_completeness auto
termination
proof (relation "measure (\<lambda>a. loop_measure (snd a))")
  show "wf (measure (\<lambda>a. loop_measure (snd a)))" by simp
next
  fix lim :: int and g :: Graph and P :: Paths and entry :: "int \<times> string" and q es st
  assume es: "map_of g (snd entry) = Some es"
    and st: "st = fold (relax (snd entry)) es (P, q)"
  have "loop_measure (g, fold (relax (snd entry)) es (P, q)) \<le> loop_measure (g, P, q)"
    by (rule fold_relax_measure [OF map_of_dests [OF es]])
  also have "\<dots> < loop_measure (g, P, entry # q)"
    by (simp add: loop_measure_def)
  finally show "((lim, g, fst st, snd st), lim, g, P, entry # q)
      \<in> measure (\<lambda>a. loop_measure (snd a))"
    by (simp add: st)
qed

definition sums_below :: "int \<Rightarrow> Graph \<Rightarrow> string \<Rightarrow> bool" where
  "sums_below lim graph start = run_sums_below lim graph (init_paths graph start) [(0, start)]"

text \<open>The states of a run, in order: the map and the frontier at each test of the
  \<open>while\<close> condition.\<close>

function run_states :: "Graph \<Rightarrow> Paths \<Rightarrow> frontier \<Rightarrow> (Paths \<times> frontier) list" where
  "run_states g P [] = [(P, [])]"
| "run_states g P (entry # q) =
     (P, entry # q) #
       (case map_of g (snd entry) of
          Some es \<Rightarrow>
            (let st = fold (relax (snd entry)) es (P, q) in run_states g (fst st) (snd st))
        | None \<Rightarrow> [])"
  by pat_completeness auto
termination
proof (relation "measure loop_measure")
  show "wf (measure loop_measure)" by simp
next
  fix g :: Graph and P :: Paths and entry :: "int \<times> string" and q es st
  assume es: "map_of g (snd entry) = Some es"
    and st: "st = fold (relax (snd entry)) es (P, q)"
  have "loop_measure (g, fold (relax (snd entry)) es (P, q)) \<le> loop_measure (g, P, q)"
    by (rule fold_relax_measure [OF map_of_dests [OF es]])
  also have "\<dots> < loop_measure (g, P, entry # q)"
    by (simp add: loop_measure_def)
  finally show "((g, fst st, snd st), g, P, entry # q) \<in> measure loop_measure"
    by (simp add: st)
qed

section \<open>The path reconstructor\<close>

datatype error =
    OutOfRange        \<comment> \<open>\<open>std::out_of_range\<close>, thrown by \<open>map::at\<close> on a missing key\<close>
  | IndexOutOfBounds  \<comment> \<open>a vector read past its end (\<open>path.size() - 1\<close> wraps at size 0)\<close>

text \<open>The backward walk over the predecessor links: \<open>push_back\<close>, then \<open>paths.at\<close>.
  The loop has no bound of its own, so the walk is a partial function: \<open>None\<close> is a walk
  that never ends (the program then stops when the vector can grow no more).\<close>

partial_function (option) walk_back ::
    "Paths \<Rightarrow> string \<Rightarrow> string list \<Rightarrow> (error + string list) option" where
  "walk_back P current path =
     (if current = [] then Some (Inr path)
      else (case P current of
              None \<Rightarrow> Some (Inl OutOfRange)
            | Some r \<Rightarrow> walk_back P (snd r) (path @ [current])))"

text \<open>The scan of the outgoing edge set for the first edge to \<open>nextCity\<close>; 0 when there
  is none.\<close>

fun first_match :: "edge list \<Rightarrow> string \<Rightarrow> int" where
  "first_match [] nextCity = 0"
| "first_match (neighbor # es) nextCity =
     (if fst neighbor = nextCity then snd neighbor else first_match es nextCity)"

type_synonym leg = "string \<times> string \<times> int"

fun legs :: "Graph \<Rightarrow> string list \<Rightarrow> error + leg list" where
  "legs g [] = Inl IndexOutOfBounds"
| "legs g [c] = Inr []"
| "legs g (currentCity # nextCity # rest) =
     (case map_of g currentCity of
        None \<Rightarrow> Inl OutOfRange
      | Some es \<Rightarrow>
          (case legs g (nextCity # rest) of
             Inl e \<Rightarrow> Inl e
           | Inr ls \<Rightarrow> Inr ((currentCity, nextCity, first_match es nextCity) # ls)))"

definition route :: "Graph \<Rightarrow> Paths \<Rightarrow> string \<Rightarrow> (error + leg list) option" where
  "route g P dest =
     (case walk_back P dest [] of
        None \<Rightarrow> None
      | Some (Inl e) \<Rightarrow> Some (Inl e)
      | Some (Inr path) \<Rightarrow> Some (legs g (rev path)))"

subsection \<open>The text of a result\<close>

definition endl :: string where
  "endl = [CHR 0x0A]"

fun show_nat :: "nat \<Rightarrow> string" where
  "show_nat n =
     (if n < 10 then [''0123456789'' ! n]
      else show_nat (n div 10) @ [''0123456789'' ! (n mod 10)])"

definition show_int :: "int \<Rightarrow> string" where
  "show_int i = (if i < 0 then CHR ''-'' # show_nat (nat (- i)) else show_nat (nat i))"

definition leg_line :: "leg \<Rightarrow> string" where
  "leg_line l =
     fst l @ '' --> '' @ fst (snd l) @ '' '' @ show_int (snd (snd l)) @ '' km'' @ endl"

definition createResultsMessage ::
    "string \<Rightarrow> string \<Rightarrow> int \<Rightarrow> Graph \<Rightarrow> Paths \<Rightarrow> (error + string) option" where
  "createResultsMessage start dest totalDistance g P =
     (case route g P dest of
        None \<Rightarrow> None
      | Some (Inl e) \<Rightarrow> Some (Inl e)
      | Some (Inr ls) \<Rightarrow>
          Some (Inr (''Trasa: '' @ start @ '' --> '' @ dest @ '' ('' @ show_int totalDistance
                     @ '' km):'' @ endl @ concat (map leg_line ls) @ endl)))"

section \<open>The query loop\<close>

text \<open>What a run of the loop does, in order: a call of the engine, a message appended
  to the result file. A run ends normally, by an exception nobody catches, or never.\<close>

datatype event = EngineRun string string | Saved string

datatype ending = Finished | Threw error | Hung

definition read_query :: "string \<Rightarrow> (string \<times> string) option" where
  "read_query line =
     (case extract_string line of
        None \<Rightarrow> None
      | Some (start, r1) \<Rightarrow>
          (case extract_string r1 of
             None \<Rightarrow> None
           | Some (dest, r2) \<Rightarrow> Some (start, dest)))"

definition no_info :: "string \<Rightarrow> string \<Rightarrow> string" where
  "no_info start dest =
     ''Trasa: '' @ start @ '' --> '' @ dest @ '' (Brak informacji o polaczeniu)'' @ endl @ endl"

definition impossible :: "string \<Rightarrow> string \<Rightarrow> string" where
  "impossible start dest =
     ''Trasa: '' @ start @ '' --> '' @ dest @ '' (Trasa niemozliwa do wyznaczenia)'' @ endl @ endl"

definition process_query :: "Graph \<Rightarrow> string \<Rightarrow> string \<Rightarrow> event list \<times> ending" where
  "process_query graph start dest =
     (let paths = Dijkstra graph start dest in
      if map_of graph start = None \<or> map_of graph dest = None
      then ([EngineRun start dest, Saved (no_info start dest)], Finished)
      else if fst (paths_get paths dest) \<noteq> INT_MAX \<and> paths_ref paths dest dest \<noteq> None
      then (case createResultsMessage start dest (fst (paths_get paths dest)) graph
                   (paths_ref paths dest) of
              None \<Rightarrow> ([EngineRun start dest], Hung)
            | Some (Inl e) \<Rightarrow> ([EngineRun start dest], Threw e)
            | Some (Inr resultMessage) \<Rightarrow>
                ([EngineRun start dest, Saved resultMessage], Finished))
      else ([EngineRun start dest, Saved (impossible start dest)], Finished))"

fun main_loop :: "Graph \<Rightarrow> string list \<Rightarrow> event list \<times> ending" where
  "main_loop graph [] = ([], Finished)"
| "main_loop graph (line # rest) =
     (case read_query line of
        None \<Rightarrow> main_loop graph rest
      | Some (start, dest) \<Rightarrow>
          (case process_query graph start dest of
             (evs, Finished) \<Rightarrow> (evs @ fst (main_loop graph rest), snd (main_loop graph rest))
           | (evs, stop) \<Rightarrow> (evs, stop)))"

section \<open>Facts about the containers\<close>

lemma set_set_insert: "set (set_insert x xs) = insert x (set xs)"
  by (induction xs) auto

lemma sorted_set_insert: "sorted_wrt (<) xs \<Longrightarrow> sorted_wrt (<) (set_insert x xs)"
  by (induction xs) (auto simp: set_set_insert)

lemma map_fst_graph_at: "map fst (graph_at f k g) = set_insert k (map fst g)"
  by (induction g) auto

lemma fst_graph_at: "set (map fst (graph_at f k g)) = insert k (set (map fst g))"
  by (simp only: map_fst_graph_at set_set_insert)

lemma keys_graph_at: "keys (graph_at f k g) = insert k (keys g)"
  using fst_graph_at [of f k g] by (simp add: keys_def)

lemma sorted_graph_at:
  "sorted_wrt (<) (map fst g) \<Longrightarrow> sorted_wrt (<) (map fst (graph_at f k g))"
  by (simp only: map_fst_graph_at sorted_set_insert)

definition edges_of :: "Graph \<Rightarrow> string \<Rightarrow> edge list" where
  "edges_of g k = (case map_of g k of None \<Rightarrow> [] | Some es \<Rightarrow> es)"

lemma map_of_below:
  fixes g :: Graph
  shows "\<forall>k' \<in> set (map fst g). k < k' \<Longrightarrow> map_of g k = None"
  by (induction g) auto

lemma map_of_graph_at:
  "sorted_wrt (<) (map fst g) \<Longrightarrow>
     map_of (graph_at f k g) x = (if x = k then Some (f (edges_of g k)) else map_of g x)"
proof (induction g)
  case Nil
  then show ?case by (simp add: edges_of_def)
next
  case (Cons a g)
  obtain k' es where a: "a = (k', es)" by (cases a)
  have gt: "\<forall>x \<in> set (map fst g). k' < x" and sg: "sorted_wrt (<) (map fst g)"
    using Cons.prems a by auto
  show ?case
  proof (cases "k < k'")
    case True
    then have "\<forall>x \<in> set (map fst (a # g)). k < x" using gt a by auto
    then have "map_of (a # g) k = None" by (rule map_of_below)
    then have "edges_of (a # g) k = []" by (simp add: edges_of_def)
    then show ?thesis using True a by simp
  next
    case False
    show ?thesis
    proof (cases "k = k'")
      case True
      then show ?thesis using a by (simp add: edges_of_def)
    next
      case ne: False
      have "edges_of (a # g) k = edges_of g k" using ne a by (simp add: edges_of_def)
      then show ?thesis using False ne a Cons.IH [OF sg] by (cases "x = k") simp_all
    qed
  qed
qed

lemma map_of_edges_of: "map_of g k \<noteq> None \<Longrightarrow> map_of g k = Some (edges_of g k)"
  by (auto simp: edges_of_def)

lemma keys_dom: "keys g = dom (map_of g)"
  by (simp add: keys_def dom_map_of_conv_image_fst)

lemma sorted_keys_distinct:
  fixes g :: Graph
  shows "sorted_wrt (<) (map fst g) \<Longrightarrow> distinct (map fst g)"
  by (simp add: strict_sorted_iff)

lemma dests_map_of:
  assumes "sorted_wrt (<) (map fst g)"
  shows "dests g = {v. \<exists>k es w. map_of g k = Some es \<and> (v, w) \<in> set es}"
proof -
  have "((k, es) \<in> set g) = (map_of g k = Some es)" for k es
    using sorted_keys_distinct [OF assms] by simp
  then show ?thesis by (force simp: dests_def)
qed

section \<open>The graph that \<open>loadFromFile\<close> builds\<close>

text \<open>The nodes that the edge list mentions, and the edges it gives a node.\<close>

definition mentioned :: "string list \<Rightarrow> string set" where
  "mentioned lines =
     {k. \<exists>l \<in> set lines. \<exists>s d w. read_edge l = Some (s, d, w) \<and> (k = s \<or> k = d)}"

definition out_edges :: "string list \<Rightarrow> string \<Rightarrow> edge set" where
  "out_edges lines k = {e. \<exists>l \<in> set lines. read_edge l = Some (k, fst e, snd e)}"

lemma loadFromFile_snoc: "loadFromFile (ls @ [l]) = add_line (loadFromFile ls) l"
  by (simp add: loadFromFile_def)

lemma mentioned_snoc_None: "read_edge l = None \<Longrightarrow> mentioned (ls @ [l]) = mentioned ls"
  by (auto simp: mentioned_def)

lemma mentioned_snoc_Some:
  "read_edge l = Some (s, d, w) \<Longrightarrow> mentioned (ls @ [l]) = insert s (insert d (mentioned ls))"
  by (auto simp: mentioned_def)

lemma out_edges_snoc_None: "read_edge l = None \<Longrightarrow> out_edges (ls @ [l]) k = out_edges ls k"
  by (auto simp: out_edges_def)

lemma out_edges_snoc_Some:
  "read_edge l = Some (s, d, w) \<Longrightarrow>
     out_edges (ls @ [l]) k = (if s = k then insert (d, w) (out_edges ls k) else out_edges ls k)"
  by (auto simp: out_edges_def)

lemma load_sorted: "sorted_wrt (<) (map fst (loadFromFile ls))"
proof (induction ls rule: rev_induct)
  case Nil
  then show ?case by (simp add: loadFromFile_def)
next
  case (snoc l ls)
  show ?case
  proof (cases "read_edge l")
    case None
    then show ?thesis using snoc by (simp add: loadFromFile_snoc add_line_def)
  next
    case (Some r)
    obtain s d w where r: "r = (s, d, w)" by (cases r)
    have "sorted_wrt (<) (map fst (graph_at id d
            (graph_at (set_insert (d, w)) s (loadFromFile ls))))"
      by (intro sorted_graph_at snoc)
    then show ?thesis using Some r by (simp add: loadFromFile_snoc add_line_def)
  qed
qed

lemma add_line_map_of:
  assumes "read_edge l = Some (s, d, w)" and "sorted_wrt (<) (map fst g)"
  shows "map_of (add_line g l) x =
     (if x = s then Some (set_insert (d, w) (edges_of g s))
      else if x = d then Some (edges_of g d) else map_of g x)"
proof -
  let ?g1 = "graph_at (set_insert (d, w)) s g"
  have m1: "map_of ?g1 y = (if y = s then Some (set_insert (d, w) (edges_of g s)) else map_of g y)"
    for y by (rule map_of_graph_at [OF assms(2)])
  have s1: "sorted_wrt (<) (map fst ?g1)"
    by (rule sorted_graph_at [OF assms(2)])
  have m2: "map_of (graph_at id d ?g1) y = (if y = d then Some (edges_of ?g1 d) else map_of ?g1 y)"
    for y using map_of_graph_at [OF s1, of id d y] by simp
  have e1: "edges_of ?g1 d = (if d = s then set_insert (d, w) (edges_of g s) else edges_of g d)"
    unfolding edges_of_def [of ?g1] m1 by (simp add: edges_of_def)
  have "add_line g l = graph_at id d ?g1" using assms(1) by (simp add: add_line_def)
  then have "map_of (add_line g l) x = (if x = d then Some (edges_of ?g1 d) else map_of ?g1 x)"
    by (simp only: m2)
  then show ?thesis unfolding e1 m1 by (cases "x = s"; cases "x = d") simp_all
qed

lemma load_dom: "(map_of (loadFromFile ls) k \<noteq> None) = (k \<in> mentioned ls)"
proof (induction ls rule: rev_induct)
  case Nil
  then show ?case by (simp add: loadFromFile_def mentioned_def)
next
  case (snoc l ls)
  show ?case
  proof (cases "read_edge l")
    case None
    then show ?thesis
      using snoc by (simp add: loadFromFile_snoc add_line_def mentioned_snoc_None)
  next
    case (Some r)
    obtain s d w where r: "read_edge l = Some (s, d, w)" using Some by (cases r) simp
    show ?thesis
      using snoc
      by (simp add: loadFromFile_snoc add_line_map_of [OF r load_sorted] mentioned_snoc_Some [OF r])
  qed
qed

lemma load_edges: "set (edges_of (loadFromFile ls) k) = out_edges ls k"
proof (induction ls arbitrary: k rule: rev_induct)
  case Nil
  then show ?case by (simp add: loadFromFile_def out_edges_def edges_of_def)
next
  case (snoc l ls)
  show ?case
  proof (cases "read_edge l")
    case None
    then show ?thesis
      using snoc by (simp add: loadFromFile_snoc add_line_def out_edges_snoc_None)
  next
    case (Some r)
    obtain s d w where r: "read_edge l = Some (s, d, w)" using Some by (cases r) simp
    have "edges_of (loadFromFile (ls @ [l])) k =
        (if k = s then set_insert (d, w) (edges_of (loadFromFile ls) s)
         else edges_of (loadFromFile ls) k)"
      by (simp add: edges_of_def loadFromFile_snoc add_line_map_of [OF r load_sorted])
    then show ?thesis
      using snoc by (auto simp: out_edges_snoc_Some [OF r] set_set_insert)
  qed
qed

lemma load_keys: "keys (loadFromFile ls) = mentioned ls"
  using load_dom [of ls] by (auto simp: keys_dom dom_def)

lemma load_dests: "dests (loadFromFile ls) \<subseteq> mentioned ls"
proof
  fix v
  assume "v \<in> dests (loadFromFile ls)"
  then obtain k es w where k: "map_of (loadFromFile ls) k = Some es" and v: "(v, w) \<in> set es"
    by (auto simp: dests_map_of [OF load_sorted])
  have "es = edges_of (loadFromFile ls) k" using k by (simp add: edges_of_def)
  then have "(v, w) \<in> out_edges ls k" using v load_edges [of ls k] by simp
  then show "v \<in> mentioned ls" by (auto simp: out_edges_def mentioned_def)
qed

text \<open>
  C5. After loading any edge list, every node that an edge names as its destination is a
  key of the graph; a node that the list mentions and that is the source of no edge is a
  key with the empty outgoing edge set.
\<close>

theorem load_destinations_are_keys:
  "dests (loadFromFile lines) \<subseteq> keys (loadFromFile lines)
   \<and> (\<forall>d. d \<in> mentioned lines \<and> out_edges lines d = {}
          \<longrightarrow> map_of (loadFromFile lines) d = Some [])"
proof
  show "dests (loadFromFile lines) \<subseteq> keys (loadFromFile lines)"
    using load_dests [of lines] by (simp add: load_keys)
next
  show "\<forall>d. d \<in> mentioned lines \<and> out_edges lines d = {}
          \<longrightarrow> map_of (loadFromFile lines) d = Some []"
  proof (intro allI impI)
    fix d
    assume d: "d \<in> mentioned lines \<and> out_edges lines d = {}"
    then have "edges_of (loadFromFile lines) d = []"
      using load_edges [of lines d] by simp
    moreover have "map_of (loadFromFile lines) d \<noteq> None"
      using d load_dom [of lines d] by simp
    ultimately show "map_of (loadFromFile lines) d = Some []"
      using map_of_edges_of [of "loadFromFile lines" d] by simp
  qed
qed

lemmas read_defs = read_edge_def read_query_def extract_string_def extract_int_def isspace_def
  isdigit_def decimal_def INT_MAX_def INT_MIN_def

lemmas load_defs = loadFromFile_def add_line_def read_defs

theorem load_destinations_are_keys_witness:
  "dests (loadFromFile [''A B 5'']) \<subseteq> keys (loadFromFile [''A B 5''])
   \<and> ''B'' \<in> mentioned [''A B 5''] \<and> out_edges [''A B 5''] ''B'' = {}
   \<and> map_of (loadFromFile [''A B 5'']) ''B'' = Some []"
proof -
  have r: "read_edge ''A B 5'' = Some (''A'', ''B'', 5)"
    by (simp add: read_defs)
  have m: "''B'' \<in> mentioned [''A B 5'']" by (simp add: mentioned_def r)
  have e: "out_edges [''A B 5''] ''B'' = {}" by (simp add: out_edges_def r)
  show ?thesis using load_destinations_are_keys [of "[''A B 5'']"] m e by simp
qed
section \<open>The engine on a source that is not a key\<close>

lemma fold_init_apply:
  "fold (\<lambda>node P. if fst node = start then P(fst node \<mapsto> (0, []))
                    else P(fst node \<mapsto> (INT_MAX, []))) g P0 k =
     (if k \<in> keys g then Some (if k = start then 0 else INT_MAX, []) else P0 k)"
proof (induction g arbitrary: P0)
  case Nil
  then show ?case by (simp add: keys_def)
next
  case (Cons a g)
  show ?case by (simp add: Cons.IH keys_def)
qed

lemma init_paths_apply:
  "init_paths g start k =
     (if k \<in> keys g then Some (if k = start then 0 else INT_MAX, []) else None)"
  unfolding init_paths_def by (rule fold_init_apply)

lemmas engine_defs = Dijkstra_def init_paths_def relax_def paths_ref_def paths_get_def wrap32_def
  INT_MAX_def Let_def

lemmas query_defs = walk_back.simps route_def createResultsMessage_def process_query_def
  leg_line_def show_int_def endl_def no_info_def impossible_def

text \<open>
  C9. Invoked with a source that is not a key of the graph, the engine still returns: the
  first turn of the loop leaves it, and the result is the initial map. Its keys are the
  keys of the graph and every record is the unreached one, the sentinel distance with no
  predecessor; no entry is an exception, and the source has no entry.
\<close>

theorem unknown_source_all_unreached:
  "map_of g start = None \<Longrightarrow>
     Dijkstra g start dest = init_paths g start
     \<and> (\<forall>k. Dijkstra g start dest k = (if k \<in> keys g then Some (INT_MAX, []) else None))"
proof -
  assume n: "map_of g start = None"
  then have r: "Dijkstra g start dest = init_paths g start" by (simp add: Dijkstra_def)
  have "start \<notin> keys g" using n by (simp add: keys_dom dom_def)
  then have "init_paths g start k = (if k \<in> keys g then Some (INT_MAX, []) else None)" for k
    by (auto simp: init_paths_apply)
  then show ?thesis using r by simp
qed

theorem unknown_source_all_unreached_witness:
  "map_of [(''A'', [(''B'', 5)]), (''B'', [])] ''Z'' = None
   \<and> Dijkstra [(''A'', [(''B'', 5)]), (''B'', [])] ''Z'' ''A'' ''A'' = Some (INT_MAX, [])
   \<and> Dijkstra [(''A'', [(''B'', 5)]), (''B'', [])] ''Z'' ''A'' ''Z'' = None"
proof -
  have n: "map_of [(''A'', [(''B'', 5::int)]), (''B'', [])] ''Z'' = None" by simp
  note h = unknown_source_all_unreached [OF n, of "''A''", THEN conjunct2]
  show ?thesis
    using n h [THEN spec, of "''A''"] h [THEN spec, of "''Z''"] by (simp add: keys_def)
qed

text \<open>No entry of the result differs from the unreached record. On the graph with the
  single node A and the unknown source Z the returned map is known in full: its only
  entry is the unreached record of A.\<close>

theorem unknown_source_no_exception:
  "Dijkstra [(''A'', [])] ''Z'' ''A'' = [''A'' \<mapsto> (INT_MAX, [])]"
  by (simp add: Dijkstra_def init_paths_def)

section \<open>Queries\<close>

text \<open>
  C3. A query whose origin or destination is not a key of the graph gets the message
  "Brak informacji o polaczeniu", whatever the other endpoint is, and the loop goes on
  with the next line. The engine has run for the query before the keys are looked at;
  its result is not used.
\<close>

theorem unknown_node_no_info:
  "read_query line = Some (start, dest) \<Longrightarrow> map_of g start = None \<or> map_of g dest = None \<Longrightarrow>
     process_query g start dest = ([EngineRun start dest, Saved (no_info start dest)], Finished)
     \<and> main_loop g (line # rest) =
         ([EngineRun start dest, Saved (no_info start dest)] @ fst (main_loop g rest),
          snd (main_loop g rest))"
  by (simp add: process_query_def)

theorem unknown_node_no_info_witness:
  "read_query ''A Z'' = Some (''A'', ''Z'')
   \<and> (map_of [(''A'', [(''B'', 5)]), (''B'', [])] ''A'' = None
        \<or> map_of [(''A'', [(''B'', 5)]), (''B'', [])] ''Z'' = None)
   \<and> main_loop [(''A'', [(''B'', 5)]), (''B'', [])] [''A Z''] =
        ([EngineRun ''A'' ''Z'',
          Saved (''Trasa: A --> Z (Brak informacji o polaczeniu)'' @ endl @ endl)], Finished)"
proof -
  have q: "read_query ''A Z'' = Some (''A'', ''Z'')" by (simp add: read_defs)
  have n: "map_of [(''A'', [(''B'', 5::int)]), (''B'', [])] ''A'' = None
      \<or> map_of [(''A'', [(''B'', 5::int)]), (''B'', [])] ''Z'' = None" by simp
  show ?thesis
    using unknown_node_no_info [OF q n, of "[]"] q by (simp add: no_info_def)
qed

text \<open>The engine runs for a query with an unknown origin: the run is the first event of
  the query.\<close>

theorem unknown_node_engine_runs:
  "main_loop [(''A'', [(''B'', 5)]), (''B'', [])] [''Z A''] =
     ([EngineRun ''Z'' ''A'',
       Saved (''Trasa: Z --> A (Brak informacji o polaczeniu)'' @ endl @ endl)], Finished)"
  by (simp add: read_defs process_query_def no_info_def)

text \<open>
  C4. When the frontier yields a node for which the graph has no record, the loop of the
  engine stops at once and the distance map built so far is returned as the ordinary
  result of the run. Nothing fatal follows: a query whose origin has no record, the run
  of which stops in this way at its first turn, gets the per-query message
  "Brak informacji o polaczeniu", and the following queries are processed.
\<close>

theorem missing_record_stops_run_only:
  "map_of g (snd entry) = None \<Longrightarrow>
     dijkstra_loop g P (entry # q) = P
     \<and> (read_query line = Some (snd entry, dest) \<longrightarrow>
          main_loop g (line # rest) =
            ([EngineRun (snd entry) dest, Saved (no_info (snd entry) dest)]
               @ fst (main_loop g rest), snd (main_loop g rest)))"
  by (simp add: process_query_def)

theorem missing_record_stops_run_only_witness:
  "map_of [(''A'', [(''B'', 5)]), (''B'', [])] (snd (0, ''Z'')) = None
   \<and> dijkstra_loop [(''A'', [(''B'', 5)]), (''B'', [])] Map.empty [(0, ''Z''), (1, ''A'')] = Map.empty
   \<and> read_query ''Z A'' = Some (snd (0::int, ''Z''), ''A'')
   \<and> main_loop [(''A'', [(''B'', 5)]), (''B'', [])] [''Z A''] =
        ([EngineRun ''Z'' ''A'', Saved (no_info ''Z'' ''A'')], Finished)"
proof -
  have n: "map_of [(''A'', [(''B'', 5::int)]), (''B'', [])] (snd (0::int, ''Z'')) = None" by simp
  have q: "read_query ''Z A'' = Some (snd (0::int, ''Z''), ''A'')" by (simp add: read_defs)
  show ?thesis
    using missing_record_stops_run_only [OF n, of Map.empty "[(1, ''A'')]" "''Z A''" "''A''" "[]"] q
    by simp
qed

text \<open>A batch of two queries: the run for the first one meets the unknown node Z at its
  first turn; the batch ends normally and the second query has its route.\<close>

theorem batch_survives_missing_record:
  "main_loop [(''A'', [(''B'', 5)]), (''B'', [])] [''Z A'', ''A B''] =
     ([EngineRun ''Z'' ''A'',
       Saved (''Trasa: Z --> A (Brak informacji o polaczeniu)'' @ endl @ endl),
       EngineRun ''A'' ''B'',
       Saved (''Trasa: A --> B (5 km):'' @ endl @ ''A --> B 5 km'' @ endl @ endl)], Finished)"
  by (simp add: read_defs engine_defs query_defs)

section \<open>The order of the frontier\<close>

lemma sorted_relax: "sorted_wrt (<) q \<Longrightarrow> sorted_wrt (<) (snd (relax c e (P, q)))"
  by (simp add: relax_def Let_def sorted_set_insert)

lemma sorted_fold_relax:
  "sorted_wrt (<) (snd st) \<Longrightarrow> sorted_wrt (<) (snd (fold (relax c) es st))"
proof (induction es arbitrary: st)
  case Nil
  then show ?case by simp
next
  case (Cons e es)
  have "sorted_wrt (<) (snd (relax c e (fst st, snd st)))"
    using Cons.prems by (rule sorted_relax)
  then show ?case using Cons.IH by simp
qed

lemma run_states_sorted:
  "sorted_wrt (<) q \<Longrightarrow> st \<in> set (run_states g P q) \<Longrightarrow> sorted_wrt (<) (snd st)"
proof (induction g P q rule: run_states.induct)
  case (1 g P)
  then show ?case by simp
next
  case (2 g P entry q)
  show ?case
  proof (cases "st = (P, entry # q)")
    case True
    then show ?thesis using "2.prems"(1) by simp
  next
    case False
    have "\<exists>es. map_of g (snd entry) = Some es
        \<and> st \<in> set (run_states g (fst (fold (relax (snd entry)) es (P, q)))
                 (snd (fold (relax (snd entry)) es (P, q))))"
      using "2.prems"(2) False by (cases "map_of g (snd entry)") (simp_all add: Let_def)
    then obtain es where es: "map_of g (snd entry) = Some es"
      and f: "st \<in> set (run_states g (fst (fold (relax (snd entry)) es (P, q)))
                 (snd (fold (relax (snd entry)) es (P, q))))"
      by blast
    have "sorted_wrt (<) q" using "2.prems"(1) by simp
    then have "sorted_wrt (<) (snd (fold (relax (snd entry)) es (P, q)))"
      using sorted_fold_relax [of "(P, q)"] by simp
    then show ?thesis using "2.IH" [OF es refl _ f] by simp
  qed
qed

lemma run_states_result:
  "st \<in> set (run_states g P q) \<Longrightarrow> dijkstra_loop g P q = dijkstra_loop g (fst st) (snd st)"
proof (induction g P q rule: run_states.induct)
  case (1 g P)
  then show ?case by auto
next
  case (2 g P entry q)
  show ?case
  proof (cases "st = (P, entry # q)")
    case True
    then show ?thesis by simp
  next
    case False
    have "\<exists>es. map_of g (snd entry) = Some es
        \<and> st \<in> set (run_states g (fst (fold (relax (snd entry)) es (P, q)))
                 (snd (fold (relax (snd entry)) es (P, q))))"
      using "2.prems" False by (cases "map_of g (snd entry)") (simp_all add: Let_def)
    then obtain es where es: "map_of g (snd entry) = Some es"
      and f: "st \<in> set (run_states g (fst (fold (relax (snd entry)) es (P, q)))
                 (snd (fold (relax (snd entry)) es (P, q))))"
      by blast
    have "dijkstra_loop g (fst (fold (relax (snd entry)) es (P, q)))
        (snd (fold (relax (snd entry)) es (P, q))) = dijkstra_loop g (fst st) (snd st)"
      using "2.IH" [OF es refl f] .
    then show ?thesis using es by (simp add: Let_def)
  qed
qed

lemma sorted_hd_Min:
  fixes q :: frontier
  assumes "sorted_wrt (<) q" and "q \<noteq> []"
  shows "hd q = Min (set q)" and "set (tl q) = set q - {Min (set q)}"
proof -
  obtain x xs where q: "q = x # xs" using assms(2) by (cases q) auto
  have lt: "\<forall>y \<in> set xs. x < y" using assms(1) q by simp
  have "Min (set q) = x"
    unfolding q by (rule Min_eqI) (use lt in \<open>auto simp: less_imp_le\<close>)
  then show "hd q = Min (set q)" by (simp add: q)
  have "x \<notin> set xs" using lt by auto
  then show "set (tl q) = set q - {Min (set q)}" using \<open>Min (set q) = x\<close> by (auto simp: q)
qed

lemma loop_takes_least:
  fixes q :: frontier
  assumes "sorted_wrt (<) q" and "q \<noteq> []"
  shows "dijkstra_loop g P q =
     (case map_of g (snd (Min (set q))) of
        None \<Rightarrow> P
      | Some es \<Rightarrow>
          (let st = fold (relax (snd (Min (set q)))) es (P, tl q)
           in dijkstra_loop g (fst st) (snd st)))"
proof -
  obtain x xs where q: "q = x # xs" using assms(2) by (cases q) auto
  have "hd q = Min (set q)" using assms by (rule sorted_hd_Min)
  then have "Min (set q) = x" by (simp add: q)
  then show ?thesis by (simp add: q split: option.splits)
qed

lemma set_fold_set_insert: "set (fold set_insert xs q) = set xs \<union> set q"
  by (induction xs arbitrary: q) (auto simp: set_set_insert)

lemma sorted_fold_set_insert:
  "sorted_wrt (<) q \<Longrightarrow> sorted_wrt (<) (fold set_insert xs q)"
  by (induction xs arbitrary: q) (auto simp: sorted_set_insert)

lemma frontier_of_set:
  fixes xs ys :: frontier
  assumes "set xs = set ys"
  shows "fold set_insert xs [] = fold set_insert ys []"
proof -
  have "sorted_wrt (<) (fold set_insert xs [])" and "sorted_wrt (<) (fold set_insert ys [])"
    by (simp_all add: sorted_fold_set_insert)
  then have "sorted (fold set_insert xs []) \<and> distinct (fold set_insert xs [])"
    and "sorted (fold set_insert ys []) \<and> distinct (fold set_insert ys [])"
    by (simp_all add: strict_sorted_iff)
  moreover have "set (fold set_insert xs []) = set (fold set_insert ys [])"
    using assms by (simp add: set_fold_set_insert)
  ultimately show ?thesis by (blast intro: sorted_distinct_set_unique)
qed

text \<open>An edge list on which two nodes wait in the frontier with the same distance.\<close>

definition tie_graph :: Graph where
  "tie_graph = loadFromFile [''S C 2'', ''S D 1'', ''D B 1'', ''B T 1'', ''C T 1'']"

lemma tie_graph_eq:
  "tie_graph =
     [(''B'', [(''T'', 1)]), (''C'', [(''T'', 1)]), (''D'', [(''B'', 1)]),
      (''S'', [(''C'', 2), (''D'', 1)]), (''T'', [])]"
  by (simp add: tie_graph_def load_defs)

text \<open>
  C7. The frontier is kept in the order of the pairs (distance, node id): first by
  distance, then by node id, strings compared byte by byte. In every state of a run of
  the engine the frontier is strictly increasing in that order and its first pair is
  the least one, and the run goes on from that state to the result of the engine. A
  turn of the loop on an ordered frontier works on the least pair of the frontier (the
  least distance, and among equal distances the least node id) and takes exactly that
  pair out. The frontier built from a set of pairs, and with it the result of the loop,
  does not depend on the order in which the pairs were inserted. The engine and the
  query loop are functions of the graph and the queries, so two runs give the same
  results.
\<close>

theorem frontier_order_deterministic:
  fixes q xs ys :: frontier
  shows "(\<forall>st \<in> set (run_states g (init_paths g s) [(0, s)]).
            sorted_wrt (<) (snd st) \<and> (snd st \<noteq> [] \<longrightarrow> hd (snd st) = Min (set (snd st)))
            \<and> Dijkstra g s t = dijkstra_loop g (fst st) (snd st))
     \<and> (sorted_wrt (<) q \<and> q \<noteq> [] \<longrightarrow>
          dijkstra_loop g P q =
            (case map_of g (snd (Min (set q))) of
               None \<Rightarrow> P
             | Some es \<Rightarrow>
                 (let st = fold (relax (snd (Min (set q)))) es (P, tl q)
                  in dijkstra_loop g (fst st) (snd st)))
          \<and> set (tl q) = set q - {Min (set q)})
     \<and> (set xs = set ys \<longrightarrow>
          fold set_insert xs [] = fold set_insert ys []
          \<and> dijkstra_loop g P (fold set_insert xs []) = dijkstra_loop g P (fold set_insert ys []))
     \<and> (((d :: int, n :: string) < (d', n')) = (d < d' \<or> (d = d' \<and> n < n')))"
proof (intro conjI ballI impI)
  fix st assume st: "st \<in> set (run_states g (init_paths g s) [(0, s)])"
  have s0: "sorted_wrt (<) [(0::int, s)]" by simp
  show sf: "sorted_wrt (<) (snd st)" using s0 st by (rule run_states_sorted)
  show "hd (snd st) = Min (set (snd st))" if "snd st \<noteq> []" using sf that by (rule sorted_hd_Min)
  show "Dijkstra g s t = dijkstra_loop g (fst st) (snd st)"
    unfolding Dijkstra_def using st by (rule run_states_result)
next
  assume q: "sorted_wrt (<) q \<and> q \<noteq> []"
  then show "dijkstra_loop g P q =
            (case map_of g (snd (Min (set q))) of
               None \<Rightarrow> P
             | Some es \<Rightarrow>
                 (let st = fold (relax (snd (Min (set q)))) es (P, tl q)
                  in dijkstra_loop g (fst st) (snd st)))"
    using loop_takes_least [of q g P] by simp
  show "set (tl q) = set q - {Min (set q)}" using q sorted_hd_Min(2) [of q] by simp
next
  assume e: "set xs = set ys"
  then show "fold set_insert xs [] = fold set_insert ys []" by (rule frontier_of_set)
  then show "dijkstra_loop g P (fold set_insert xs []) = dijkstra_loop g P (fold set_insert ys [])"
    by simp
next
  show "((d, n) < (d', n')) = (d < d' \<or> (d = d' \<and> n < n'))"
    by (auto simp: less_prod_def)
qed

text \<open>A run with a tie: after the node D the pairs (2, B) and (2, C) wait in the
  frontier, B leaves first, and T gets its distance 3 from B.\<close>

lemma tie_frontiers:
  "map snd (run_states tie_graph (init_paths tie_graph ''S'') [(0, ''S'')]) =
     [[(0, ''S'')], [(1, ''D''), (2, ''C'')], [(2, ''B''), (2, ''C'')],
      [(2, ''C''), (3, ''T'')], [(3, ''T'')], []]"
  by (simp add: tie_graph_eq engine_defs)

theorem frontier_order_deterministic_witness:
  "[(2, ''B''), (2, ''C'')]
      \<in> snd ` set (run_states tie_graph (init_paths tie_graph ''S'') [(0, ''S'')])
   \<and> sorted_wrt (<) [(2::int, ''B''), (2, ''C'')] \<and> [(2::int, ''B''), (2, ''C'')] \<noteq> []
   \<and> hd [(2::int, ''B''), (2, ''C'')] = Min (set [(2, ''B''), (2, ''C'')])
   \<and> set [(2::int, ''C''), (2, ''B'')] = set [(2, ''B''), (2, ''C'')]
   \<and> fold set_insert [(2::int, ''C''), (2, ''B'')] [] = fold set_insert [(2, ''B''), (2, ''C'')] []
   \<and> Dijkstra tie_graph ''S'' ''T'' ''T'' = Some (3, ''B'')"
proof -
  note th = frontier_order_deterministic [of tie_graph "''S''" "''T''" "[(2, ''B''), (2, ''C'')]"
      "init_paths tie_graph ''S''" "[(2, ''C''), (2, ''B'')]" "[(2, ''B''), (2, ''C'')]" 0 "[]" 0 "[]"]
  have "[(2, ''B''), (2, ''C'')]
      \<in> set (map snd (run_states tie_graph (init_paths tie_graph ''S'') [(0, ''S'')]))"
    unfolding tie_frontiers by simp
  then have m: "[(2, ''B''), (2, ''C'')]
      \<in> snd ` set (run_states tie_graph (init_paths tie_graph ''S'') [(0, ''S'')])"
    by (simp only: set_map)
  from m have "\<exists>st \<in> set (run_states tie_graph (init_paths tie_graph ''S'') [(0, ''S'')]).
      [(2, ''B''), (2, ''C'')] = snd st"
    by (simp only: image_iff)
  then obtain st where st: "st \<in> set (run_states tie_graph (init_paths tie_graph ''S'') [(0, ''S'')])"
    and sst': "[(2, ''B''), (2, ''C'')] = snd st" by (rule bexE)
  note sst = sst' [symmetric]
  note c = th [THEN conjunct1, THEN bspec, OF st]
  have ne: "[(2::int, ''B''), (2, ''C'')] \<noteq> []" by simp
  have a1: "sorted_wrt (<) [(2::int, ''B''), (2, ''C'')]"
    using c [THEN conjunct1] by (simp only: sst)
  have a2: "hd [(2::int, ''B''), (2, ''C'')] = Min (set [(2, ''B''), (2, ''C'')])"
    using c [THEN conjunct2, THEN conjunct1, unfolded sst] ne by blast
  have e: "set [(2::int, ''C''), (2, ''B'')] = set [(2, ''B''), (2, ''C'')]" by auto
  have b: "fold set_insert [(2::int, ''C''), (2, ''B'')] [] = fold set_insert [(2, ''B''), (2, ''C'')] []"
    using th e by blast
  have ev: "Dijkstra tie_graph ''S'' ''T'' ''T'' = Some (3, ''B'')"
    by (simp add: tie_graph_eq engine_defs)
  show ?thesis using m a1 a2 ne b e ev by blast
qed

section \<open>Directed paths and their weights\<close>

text \<open>A directed path from \<open>u\<close> to \<open>t\<close>, as the list of the edges it takes (an edge is
  its destination and its weight, as in the graph).\<close>

fun is_path :: "Graph \<Rightarrow> string \<Rightarrow> edge list \<Rightarrow> string \<Rightarrow> bool" where
  "is_path g u [] t = (u = t)"
| "is_path g u (e # es) t = (e \<in> set (edges_of g u) \<and> is_path g (fst e) es t)"


definition nonneg :: "Graph \<Rightarrow> bool" where
  "nonneg g = (\<forall>node \<in> set g. \<forall>e \<in> set (snd node). 0 \<le> snd e)"

text \<open>The representation invariant of the two containers, with the invariant of the data
  model (every destination is a key) and the fact that a node read from a file is never
  the empty string.\<close>

definition graph_ok :: "Graph \<Rightarrow> bool" where
  "graph_ok g =
     (sorted_wrt (<) (map fst g) \<and> (\<forall>node \<in> set g. sorted_wrt (<) (snd node))
      \<and> dests g \<subseteq> keys g \<and> [] \<notin> keys g)"

definition dist_of :: "Paths \<Rightarrow> string \<Rightarrow> int" where
  "dist_of P v = fst (paths_get P v)"

definition pred_of :: "Paths \<Rightarrow> string \<Rightarrow> string" where
  "pred_of P v = snd (paths_get P v)"

lemma edges_of_in_graph:
  assumes "e \<in> set (edges_of g u)"
  shows "\<exists>node \<in> set g. fst node = u \<and> e \<in> set (snd node)"
proof (cases "map_of g u")
  case None
  then show ?thesis using assms by (simp add: edges_of_def)
next
  case (Some es)
  then have "(u, es) \<in> set g" by (rule map_of_SomeD)
  moreover have "e \<in> set es" using assms Some by (simp add: edges_of_def)
  ultimately show ?thesis by force
qed

lemma edges_of_key: "e \<in> set (edges_of g u) \<Longrightarrow> u \<in> keys g"
  by (auto simp: keys_def dest!: edges_of_in_graph)

lemma edges_of_dest: "e \<in> set (edges_of g u) \<Longrightarrow> fst e \<in> dests g"
  by (auto simp: dests_def dest!: edges_of_in_graph)

lemma edges_of_nonneg: "nonneg g \<Longrightarrow> e \<in> set (edges_of g u) \<Longrightarrow> 0 \<le> snd e"
  by (auto simp: nonneg_def dest!: edges_of_in_graph)

lemma edges_of_sorted: "graph_ok g \<Longrightarrow> sorted_wrt (<) (edges_of g u)"
proof (cases "map_of g u")
  case None
  then show ?thesis by (simp add: edges_of_def)
next
  case (Some es)
  assume "graph_ok g"
  moreover have "(u, es) \<in> set g" using Some by (rule map_of_SomeD)
  ultimately have "sorted_wrt (<) es" by (auto simp: graph_ok_def)
  then show ?thesis using Some by (simp add: edges_of_def)
qed






section \<open>The record of a distance\<close>

text \<open>A distance in the map is the weight of a path that the engine has walked: a path
  from the origin that visits no node twice, every node of which has, in the map, a
  distance that is at most the weight of the path up to it. The list holds the visited
  nodes, the last one first.\<close>

inductive trail :: "Graph \<Rightarrow> Paths \<Rightarrow> string \<Rightarrow> string list \<Rightarrow> int \<Rightarrow> string \<Rightarrow> bool"
  for g :: Graph and P :: Paths and s :: string where
    trail_start: "dist_of P s \<le> 0 \<Longrightarrow> trail g P s [s] 0 s"
  | trail_step: "trail g P s vs d u \<Longrightarrow> e \<in> set (edges_of g u) \<Longrightarrow> fst e \<notin> set vs \<Longrightarrow>
       dist_of P (fst e) \<le> d + snd e \<Longrightarrow> trail g P s (fst e # vs) (d + snd e) (fst e)"

lemma trail_mono:
  assumes "trail g P s vs d u" and le: "\<And>x. dist_of P' x \<le> dist_of P x"
  shows "trail g P' s vs d u"
  using assms(1)
proof (induction rule: trail.induct)
  case trail_start
  then show ?case using le [of s] by (auto intro: trail.trail_start)
next
  case (trail_step vs d u e)
  then show ?case using le [of "fst e"] by (auto intro: trail.trail_step)
qed

lemma trail_below:
  assumes "nonneg g" and "trail g P s vs d u"
  shows "0 \<le> d \<and> (\<forall>x \<in> set vs. dist_of P x \<le> d)"
  using assms(2)
proof (induction rule: trail.induct)
  case trail_start
  then show ?case by simp
next
  case (trail_step vs d u e)
  have "0 \<le> snd e" using assms(1) trail_step.hyps(2) by (rule edges_of_nonneg)
  then show ?case using trail_step by fastforce
qed


section \<open>The invariant of the engine\<close>

text \<open>The predecessor links from a node back to the origin, the node itself first.\<close>

fun chain :: "Paths \<Rightarrow> string \<Rightarrow> string list \<Rightarrow> bool" where
  "chain P s [] = False"
| "chain P s [x] = (x = s)"
| "chain P s (x # y # r) = (pred_of P x = y \<and> y \<noteq> [] \<and> chain P s (y # r))"

text \<open>All edges of \<open>u\<close> are relaxed, by sums below the limit.\<close>

definition closed_at :: "int \<Rightarrow> Graph \<Rightarrow> Paths \<Rightarrow> string \<Rightarrow> bool" where
  "closed_at lim g P u =
     (\<forall>e \<in> set (edges_of g u).
        dist_of P (fst e) \<le> dist_of P u + snd e \<and> dist_of P u + snd e < lim)"

definition records_ok :: "Graph \<Rightarrow> string \<Rightarrow> Paths \<Rightarrow> bool" where
  "records_ok g s P =
     (P s = Some (0, []) \<and> dom P = keys g
      \<and> (\<forall>v. 0 \<le> dist_of P v \<and> dist_of P v \<le> INT_MAX)
      \<and> (\<forall>v \<in> keys g. pred_of P v = [] \<longrightarrow> v = s \<or> dist_of P v = INT_MAX))"

definition links_ok :: "Graph \<Rightarrow> Paths \<Rightarrow> bool" where
  "links_ok g P =
     (\<forall>v \<in> keys g. pred_of P v \<noteq> [] \<longrightarrow>
        dist_of P v < INT_MAX
        \<and> (\<exists>e \<in> set (edges_of g (pred_of P v)).
              fst e = v \<and> dist_of P (pred_of P v) + snd e \<le> dist_of P v))"

definition trails_ok :: "Graph \<Rightarrow> string \<Rightarrow> Paths \<Rightarrow> bool" where
  "trails_ok g s P =
     (\<forall>v \<in> keys g. dist_of P v < INT_MAX \<longrightarrow> (\<exists>vs. trail g P s vs (dist_of P v) v))"

definition chains_ok :: "Graph \<Rightarrow> string \<Rightarrow> Paths \<Rightarrow> bool" where
  "chains_ok g s P =
     (\<forall>v \<in> keys g. dist_of P v < INT_MAX \<longrightarrow> (\<exists>c. chain P s (v # c)))"

definition engine_inv :: "Graph \<Rightarrow> string \<Rightarrow> Paths \<Rightarrow> bool" where
  "engine_inv g s P = (records_ok g s P \<and> links_ok g P \<and> trails_ok g s P \<and> chains_ok g s P)"

lemma wrap32_id: "0 \<le> x \<Longrightarrow> x \<le> INT_MAX \<Longrightarrow> wrap32 x = x"
  by (simp add: wrap32_def INT_MAX_def)

lemma paths_ref_known: "k \<in> dom P \<Longrightarrow> paths_ref P k = P"
  by (auto simp: paths_ref_def)

lemma dist_of_upd: "dist_of (P(v \<mapsto> (d, p))) x = (if x = v then d else dist_of P x)"
  by (simp add: dist_of_def paths_get_def)

lemma pred_of_upd: "pred_of (P(v \<mapsto> (d, p))) x = (if x = v then p else pred_of P x)"
  by (simp add: pred_of_def paths_get_def)

lemma relax_known:
  assumes "u \<in> dom P" and "fst e \<in> dom P"
  shows "relax u e (P, q) =
     (if wrap32 (dist_of P u + snd e) < dist_of P (fst e)
      then (P(fst e \<mapsto> (wrap32 (dist_of P u + snd e), u)),
            set_insert (wrap32 (dist_of P u + snd e), fst e) q)
      else (P, q))"
  using assms by (simp add: relax_def Let_def paths_ref_known dist_of_def)

subsection \<open>Chains\<close>

lemma chain_same:
  "chain P s (x # c) \<Longrightarrow> \<forall>y \<in> set (x # c). pred_of P' y = pred_of P y \<Longrightarrow> chain P' s (x # c)"
  by (induction c arbitrary: x) auto

lemma chain_redirect:
  assumes v: "chain P' s (v # cv)" and same: "\<And>y. y \<noteq> v \<Longrightarrow> pred_of P' y = pred_of P y"
  shows "chain P s (x # c) \<Longrightarrow> \<exists>c'. chain P' s (x # c')"
proof (induction c arbitrary: x)
  case Nil
  then have "x = s" by simp
  then have "chain P' s [x]" by simp
  then show ?case by blast
next
  case (Cons y r)
  show ?case
  proof (cases "x = v")
    case True
    then show ?thesis using v by blast
  next
    case False
    from Cons.prems have y: "pred_of P x = y" "y \<noteq> []" "chain P s (y # r)" by auto
    from Cons.IH [OF y(3)] obtain c' where "chain P' s (y # c')" by blast
    then have "chain P' s (x # y # c')" using y same [OF False] by simp
    then show ?thesis by blast
  qed
qed

lemma chain_below:
  assumes "links_ok g P" and "nonneg g"
  shows "chain P s (x # c) \<Longrightarrow> x \<in> keys g \<Longrightarrow>
    \<forall>y \<in> set (x # c). y \<in> keys g \<and> dist_of P y \<le> dist_of P x"
proof (induction c arbitrary: x)
  case Nil
  then show ?case by simp
next
  case (Cons y r)
  from Cons.prems have y: "pred_of P x = y" "y \<noteq> []" "chain P s (y # r)" by auto
  obtain e where e: "e \<in> set (edges_of g y)" "dist_of P y + snd e \<le> dist_of P x"
    using assms(1) Cons.prems(2) y(1,2) unfolding links_ok_def by blast
  have yk: "y \<in> keys g" using e(1) by (rule edges_of_key)
  have "0 \<le> snd e" using assms(2) e(1) by (rule edges_of_nonneg)
  then have le: "dist_of P y \<le> dist_of P x" using e(2) by simp
  have "\<forall>z \<in> set (y # r). z \<in> keys g \<and> dist_of P z \<le> dist_of P y"
    by (rule Cons.IH [OF y(3) yk])
  then show ?case using le Cons.prems(2) by auto
qed


subsection \<open>A relaxation that improves a record\<close>

lemma improve_inv:
  assumes ok: "graph_ok g" and nn: "nonneg g" and inv: "engine_inv g s P"
    and u: "u \<in> keys g" and e: "e \<in> set (edges_of g u)"
    and nd: "nd = dist_of P u + snd e" and lt: "nd < dist_of P (fst e)"
  shows "engine_inv g s (P(fst e \<mapsto> (nd, u)))"
proof -
  define v where "v = fst e"
  define P' where "P' = P(v \<mapsto> (nd, u))"
  have rec: "records_ok g s P" and lnk: "links_ok g P" and trl: "trails_ok g s P"
    and chn: "chains_ok g s P" using inv by (simp_all add: engine_inv_def)
  have vk: "v \<in> keys g" using edges_of_dest [OF e] ok by (auto simp: graph_ok_def v_def)
  have w0: "0 \<le> snd e" using nn e by (rule edges_of_nonneg)
  have rng: "0 \<le> dist_of P x \<and> dist_of P x \<le> INT_MAX" for x
    using rec by (simp add: records_ok_def)
  have Ps: "P s = Some (0, [])" using rec by (simp add: records_ok_def)
  then have ds: "dist_of P s = 0" by (simp add: dist_of_def paths_get_def)
  have nd0: "0 \<le> nd" using nd w0 rng [of u] by simp
  have ndm: "nd < INT_MAX" using lt rng [of "fst e"] by simp
  have du: "dist_of P u < INT_MAX" using nd w0 ndm by simp
  have vs: "v \<noteq> s" using lt ds nd0 by (auto simp: v_def)
  have vu: "v \<noteq> u" using lt nd w0 by (auto simp: v_def)
  have une: "u \<noteq> []" using u ok by (auto simp: graph_ok_def)
  have d': "dist_of P' x = (if x = v then nd else dist_of P x)" for x
    by (simp add: P'_def dist_of_upd)
  have p': "pred_of P' x = (if x = v then u else pred_of P x)" for x
    by (simp add: P'_def pred_of_upd)
  have le: "dist_of P' x \<le> dist_of P x" for x using lt by (simp add: d' v_def)
  have "records_ok g s P'"
    unfolding records_ok_def
  proof (intro conjI allI ballI impI)
    show "P' s = Some (0, [])" using Ps vs by (simp add: P'_def)
    show "dom P' = keys g" using rec vk by (auto simp: P'_def records_ok_def)
    show "0 \<le> dist_of P' x" for x using nd0 rng [of x] by (simp add: d')
    show "dist_of P' x \<le> INT_MAX" for x using ndm rng [of x] by (simp add: d')
    show "x = s \<or> dist_of P' x = INT_MAX" if "x \<in> keys g" "pred_of P' x = []" for x
      using that une rec by (auto simp: d' p' records_ok_def split: if_splits)
  qed
  moreover have "links_ok g P'"
    unfolding links_ok_def
  proof (intro ballI impI)
    fix x assume x: "x \<in> keys g" "pred_of P' x \<noteq> []"
    show "dist_of P' x < INT_MAX \<and>
          (\<exists>e' \<in> set (edges_of g (pred_of P' x)).
              fst e' = x \<and> dist_of P' (pred_of P' x) + snd e' \<le> dist_of P' x)"
    proof (cases "x = v")
      case True
      have "dist_of P' u + snd e \<le> nd" using vu nd by (simp add: d')
      then show ?thesis using True e ndm by (auto simp: d' p' v_def)
    next
      case False
      then have px: "pred_of P x \<noteq> []" using x(2) by (simp add: p')
      obtain e' where e': "e' \<in> set (edges_of g (pred_of P x))" "fst e' = x"
          "dist_of P (pred_of P x) + snd e' \<le> dist_of P x" and fx: "dist_of P x < INT_MAX"
        using lnk x(1) px unfolding links_ok_def by blast
      have "dist_of P' (pred_of P x) + snd e' \<le> dist_of P x"
        using e'(3) le [of "pred_of P x"] by simp
      then show ?thesis using False e'(1,2) fx by (auto simp: d' p')
    qed
  qed
  moreover have "trails_ok g s P'"
    unfolding trails_ok_def
  proof (intro ballI impI)
    fix x assume x: "x \<in> keys g" "dist_of P' x < INT_MAX"
    show "\<exists>vs. trail g P' s vs (dist_of P' x) x"
    proof (cases "x = v")
      case True
      obtain vs where t: "trail g P s vs (dist_of P u) u"
        using trl u du unfolding trails_ok_def by blast
      have "\<forall>y \<in> set vs. dist_of P y \<le> dist_of P u" using trail_below [OF nn t] by simp
      then have nin: "fst e \<notin> set vs" using lt nd w0 by force
      have t': "trail g P' s vs (dist_of P u) u" using t le by (rule trail_mono)
      have "dist_of P' (fst e) \<le> dist_of P u + snd e" using nd by (simp add: d' v_def)
      then have "trail g P' s (fst e # vs) (dist_of P u + snd e) (fst e)"
        by (rule trail_step [OF t' e nin])
      then show ?thesis using True nd by (auto simp: d' v_def)
    next
      case False
      then obtain vs where "trail g P s vs (dist_of P x) x"
        using trl x unfolding trails_ok_def by (auto simp: d')
      then have "trail g P' s vs (dist_of P x) x" using le by (rule trail_mono)
      then show ?thesis using False by (auto simp: d')
    qed
  qed
  moreover have "chains_ok g s P'"
    unfolding chains_ok_def
  proof (intro ballI impI)
    fix x assume x: "x \<in> keys g" "dist_of P' x < INT_MAX"
    obtain cu where cu: "chain P s (u # cu)" using chn u du unfolding chains_ok_def by blast
    have "\<forall>y \<in> set (u # cu). y \<in> keys g \<and> dist_of P y \<le> dist_of P u"
      using chain_below [OF lnk nn cu u] .
    then have "v \<notin> set (u # cu)" using lt nd w0 by (force simp: v_def)
    then have "\<forall>y \<in> set (u # cu). pred_of P' y = pred_of P y" by (auto simp: p')
    then have "chain P' s (u # cu)" by (rule chain_same [OF cu])
    then have cv: "chain P' s (v # u # cu)" using une by (simp add: p')
    have same: "\<And>y. y \<noteq> v \<Longrightarrow> pred_of P' y = pred_of P y" by (simp add: p')
    show "\<exists>c. chain P' s (x # c)"
    proof (cases "x = v")
      case True
      then show ?thesis using cv by blast
    next
      case False
      then obtain c where "chain P s (x # c)"
        using chn x unfolding chains_ok_def by (auto simp: d')
      then show ?thesis using chain_redirect [OF cv same, of x c] by blast
    qed
  qed
  ultimately show ?thesis by (simp add: engine_inv_def P'_def v_def)
qed


subsection \<open>One turn of the loop\<close>

definition frontier_ok :: "Graph \<Rightarrow> Paths \<Rightarrow> frontier \<Rightarrow> bool" where
  "frontier_ok g P q = (\<forall>x \<in> set q. snd x \<in> keys g \<and> dist_of P (snd x) < INT_MAX)"

text \<open>Every reached node other than \<open>u\<close> waits in the frontier or has all its edges
  relaxed.\<close>

definition settled_but :: "int \<Rightarrow> Graph \<Rightarrow> Paths \<Rightarrow> frontier \<Rightarrow> string \<Rightarrow> bool" where
  "settled_but lim g P q u =
     (\<forall>x \<in> keys g. x \<noteq> u \<longrightarrow> dist_of P x < INT_MAX \<longrightarrow>
        x \<in> snd ` set q \<or> closed_at lim g P x)"

definition settled :: "int \<Rightarrow> Graph \<Rightarrow> Paths \<Rightarrow> frontier \<Rightarrow> bool" where
  "settled lim g P q =
     (\<forall>x \<in> keys g. dist_of P x < INT_MAX \<longrightarrow> x \<in> snd ` set q \<or> closed_at lim g P x)"

definition turn_inv :: "int \<Rightarrow> Graph \<Rightarrow> string \<Rightarrow> string \<Rightarrow> Paths \<times> frontier \<Rightarrow> bool" where
  "turn_inv lim g s u st =
     (engine_inv g s (fst st) \<and> frontier_ok g (fst st) (snd st)
      \<and> settled_but lim g (fst st) (snd st) u \<and> u \<in> keys g \<and> dist_of (fst st) u < INT_MAX)"

lemma relax_step:
  assumes ok: "graph_ok g" and nn: "nonneg g" and lim: "lim \<le> INT_MAX + 1"
    and ti: "turn_inv lim g s u (P, q)" and e: "e \<in> set (edges_of g u)"
    and sb: "sum_below lim u e (P, q)"
  shows "turn_inv lim g s u (relax u e (P, q))
     \<and> dist_of (fst (relax u e (P, q))) u = dist_of P u
     \<and> (\<forall>x. dist_of (fst (relax u e (P, q))) x \<le> dist_of P x)
     \<and> dist_of (fst (relax u e (P, q))) (fst e) \<le> dist_of P u + snd e
     \<and> dist_of P u + snd e < lim"
proof -
  have inv: "engine_inv g s P" and fr: "frontier_ok g P q" and st: "settled_but lim g P q u"
    and u: "u \<in> keys g" and du: "dist_of P u < INT_MAX"
    using ti by (simp_all add: turn_inv_def)
  have rec: "records_ok g s P"
    using inv by (simp_all add: engine_inv_def)
  have dm: "dom P = keys g" using rec by (simp add: records_ok_def)
  define nd where "nd = dist_of P u + snd e"
  have ndl: "nd < lim"
    using sb u dm by (simp add: sum_below_def paths_ref_known dist_of_def nd_def)
  have ndm: "nd \<le> INT_MAX" using ndl lim by simp
  have w0: "0 \<le> snd e" using nn e by (rule edges_of_nonneg)
  have d0: "0 \<le> dist_of P u" using rec by (simp add: records_ok_def)
  have nd0: "0 \<le> nd" using w0 d0 by (simp add: nd_def)
  have wr: "wrap32 (dist_of P u + snd e) = nd"
    using wrap32_id [OF nd0 ndm] by (simp add: nd_def)
  have vk: "fst e \<in> keys g" using edges_of_dest [OF e] ok by (auto simp: graph_ok_def)
  have rx: "relax u e (P, q) =
      (if nd < dist_of P (fst e)
       then (P(fst e \<mapsto> (nd, u)), set_insert (nd, fst e) q) else (P, q))"
    using relax_known [of u P e q] u vk dm by (simp add: wr)
  show ?thesis
  proof (cases "nd < dist_of P (fst e)")
    case False
    then have "relax u e (P, q) = (P, q)" by (simp add: rx)
    then show ?thesis using ti False ndl by (simp add: nd_def)
  next
    case True
    define P' where "P' = P(fst e \<mapsto> (nd, u))"
    define q' where "q' = set_insert (nd, fst e) q"
    have r: "relax u e (P, q) = (P', q')" using True by (simp add: rx P'_def q'_def)
    have "dist_of P (fst e) \<le> INT_MAX" using rec by (simp add: records_ok_def)
    then have ndm: "nd < INT_MAX" using True by simp
    have d': "dist_of P' x = (if x = fst e then nd else dist_of P x)" for x
      by (simp add: P'_def dist_of_upd)
    have le: "dist_of P' x \<le> dist_of P x" for x using True by (simp add: d')
    have vu: "fst e \<noteq> u" using True w0 by (auto simp: nd_def)
    have inv': "engine_inv g s P'"
      unfolding P'_def using ok nn inv u e nd_def True by (rule improve_inv)
    have sq: "set q' = insert (nd, fst e) (set q)" by (simp add: q'_def set_set_insert)
    have fr': "frontier_ok g P' q'"
      unfolding frontier_ok_def
    proof
      fix x assume "x \<in> set q'"
      then consider "x = (nd, fst e)" | "x \<in> set q" by (auto simp: sq)
      then show "snd x \<in> keys g \<and> dist_of P' (snd x) < INT_MAX"
      proof cases
        case 1
        then show ?thesis using vk ndm by (simp add: d')
      next
        case 2
        then have "snd x \<in> keys g" and "dist_of P (snd x) < INT_MAX"
          using fr by (auto simp: frontier_ok_def)
        then show ?thesis using le [of "snd x"] by simp
      qed
    qed
    have st': "settled_but lim g P' q' u"
      unfolding settled_but_def
    proof (intro ballI impI)
      fix x assume x: "x \<in> keys g" "x \<noteq> u" "dist_of P' x < INT_MAX"
      show "x \<in> snd ` set q' \<or> closed_at lim g P' x"
      proof (cases "x = fst e")
        case True
        then have "x \<in> snd ` set q'" by (force simp: sq)
        then show ?thesis ..
      next
        case False
        then have dx: "dist_of P' x = dist_of P x" by (simp add: d')
        then have "x \<in> snd ` set q \<or> closed_at lim g P x"
          using st x unfolding settled_but_def by simp
        then show ?thesis
        proof
          assume "x \<in> snd ` set q"
          then have "x \<in> snd ` set q'" by (auto simp: sq)
          then show ?thesis ..
        next
          assume c: "closed_at lim g P x"
          have "closed_at lim g P' x"
            unfolding closed_at_def
          proof
            fix e' assume "e' \<in> set (edges_of g x)"
            then have "dist_of P (fst e') \<le> dist_of P x + snd e' \<and> dist_of P x + snd e' < lim"
              using c by (simp add: closed_at_def)
            then show "dist_of P' (fst e') \<le> dist_of P' x + snd e'
                \<and> dist_of P' x + snd e' < lim"
              using le [of "fst e'"] dx by simp
          qed
          then show ?thesis ..
        qed
      qed
    qed
    have du': "dist_of P' u = dist_of P u" using vu by (simp add: d')
    have "turn_inv lim g s u (P', q')"
      using inv' fr' st' u du du' by (simp add: turn_inv_def)
    moreover have "dist_of P' (fst e) \<le> dist_of P u + snd e" by (simp add: d' nd_def)
    ultimately show ?thesis using du' le ndl by (simp add: r nd_def)
  qed
qed

lemma fold_relax_inv:
  assumes ok: "graph_ok g" and nn: "nonneg g" and lim: "lim \<le> INT_MAX + 1"
  shows "turn_inv lim g s u st \<Longrightarrow> set es \<subseteq> set (edges_of g u) \<Longrightarrow>
     turn_sums_below lim u es st \<Longrightarrow>
     turn_inv lim g s u (fold (relax u) es st)
     \<and> dist_of (fst (fold (relax u) es st)) u = dist_of (fst st) u
     \<and> (\<forall>x. dist_of (fst (fold (relax u) es st)) x \<le> dist_of (fst st) x)
     \<and> (\<forall>e \<in> set es. dist_of (fst (fold (relax u) es st)) (fst e) \<le> dist_of (fst st) u + snd e
            \<and> dist_of (fst st) u + snd e < lim)"
proof (induction es arbitrary: st)
  case Nil
  then show ?case by simp
next
  case (Cons e es)
  obtain P q where st: "st = (P, q)" by (cases st)
  let ?st1 = "relax u e st"
  let ?st2 = "fold (relax u) es ?st1"
  have e: "e \<in> set (edges_of g u)" and es: "set es \<subseteq> set (edges_of g u)"
    using Cons.prems(2) by auto
  have sb: "sum_below lim u e (P, q)" and ts: "turn_sums_below lim u es ?st1"
    using Cons.prems(3) by (simp_all add: st)
  have ti: "turn_inv lim g s u (P, q)" using Cons.prems(1) by (simp add: st)
  have s1: "turn_inv lim g s u ?st1" "dist_of (fst ?st1) u = dist_of (fst st) u"
      "\<forall>x. dist_of (fst ?st1) x \<le> dist_of (fst st) x"
      "dist_of (fst ?st1) (fst e) \<le> dist_of (fst st) u + snd e"
      "dist_of (fst st) u + snd e < lim"
    using relax_step [OF ok nn lim ti e sb] by (simp_all add: st)
  have s2: "turn_inv lim g s u ?st2" "dist_of (fst ?st2) u = dist_of (fst ?st1) u"
      "\<forall>x. dist_of (fst ?st2) x \<le> dist_of (fst ?st1) x"
      "\<forall>e' \<in> set es. dist_of (fst ?st2) (fst e') \<le> dist_of (fst ?st1) u + snd e'
          \<and> dist_of (fst ?st1) u + snd e' < lim"
    using Cons.IH [OF s1(1) es ts] by simp_all
  have a: "dist_of (fst ?st2) u = dist_of (fst st) u" using s1(2) s2(2) by simp
  have b: "dist_of (fst ?st2) x \<le> dist_of (fst st) x" for x
    using s1(3) s2(3) by (meson order_trans)
  have c: "dist_of (fst ?st2) (fst e) \<le> dist_of (fst st) u + snd e"
    using s1(4) s2(3) by (meson order_trans)
  have d: "\<forall>e' \<in> set es. dist_of (fst ?st2) (fst e') \<le> dist_of (fst st) u + snd e'
      \<and> dist_of (fst st) u + snd e' < lim"
    using s2(4) s1(2) by simp
  show ?case using s2(1) a b c d s1(5) by simp
qed


subsection \<open>The whole loop\<close>

text \<open>What holds of the map that the engine returns: the invariant, and every reached
  node has all its edges relaxed.\<close>

definition final_ok :: "int \<Rightarrow> Graph \<Rightarrow> string \<Rightarrow> Paths \<Rightarrow> bool" where
  "final_ok lim g s P =
     (engine_inv g s P \<and> (\<forall>x \<in> keys g. dist_of P x < INT_MAX \<longrightarrow> closed_at lim g P x))"

lemma key_edges: "u \<in> keys g \<Longrightarrow> map_of g u = Some (edges_of g u)"
  by (rule map_of_edges_of) (auto simp: keys_dom)

lemma loop_inv:
  "graph_ok g \<Longrightarrow> nonneg g \<Longrightarrow> lim \<le> INT_MAX + 1 \<Longrightarrow>
     engine_inv g s P \<Longrightarrow> frontier_ok g P q \<Longrightarrow> settled lim g P q \<Longrightarrow>
     run_sums_below lim g P q \<Longrightarrow>
     final_ok lim g s (dijkstra_loop g P q)"
proof (induction g P q rule: dijkstra_loop.induct)
  case (1 g P)
  then show ?case by (simp add: final_ok_def settled_def)
next
  case (2 g P entry q)
  define u where "u = snd entry"
  define st where "st = fold (relax u) (edges_of g u) (P, q)"
  have uk: "u \<in> keys g" and du: "dist_of P u < INT_MAX"
    using "2.prems"(5) by (simp_all add: frontier_ok_def u_def)
  have m: "map_of g (snd entry) = Some (edges_of g u)"
    using key_edges [OF uk] by (simp add: u_def)
  have fr: "frontier_ok g P q" using "2.prems"(5) by (simp add: frontier_ok_def)
  have sb: "settled_but lim g P q u"
    unfolding settled_but_def
  proof (intro ballI impI)
    fix x assume x: "x \<in> keys g" "x \<noteq> u" "dist_of P x < INT_MAX"
    then have "x \<in> snd ` set (entry # q) \<or> closed_at lim g P x"
      using "2.prems"(6) by (simp add: settled_def)
    then show "x \<in> snd ` set q \<or> closed_at lim g P x" using x(2) by (auto simp: u_def)
  qed
  have ti: "turn_inv lim g s u (P, q)"
    using "2.prems"(4) fr sb uk du by (simp add: turn_inv_def)
  have rs: "turn_sums_below lim u (edges_of g u) (P, q)"
      "run_sums_below lim g (fst st) (snd st)"
    using "2.prems"(7) m by (simp_all add: st_def u_def Let_def)
  have f: "turn_inv lim g s u st" "dist_of (fst st) u = dist_of P u"
      "\<forall>e \<in> set (edges_of g u). dist_of (fst st) (fst e) \<le> dist_of P u + snd e
          \<and> dist_of P u + snd e < lim"
    using fold_relax_inv [OF "2.prems"(1-3) ti _ rs(1)] by (simp_all add: st_def)
  have cu: "closed_at lim g (fst st) u" using f(2,3) by (simp add: closed_at_def)
  have inv': "engine_inv g s (fst st)" and fr': "frontier_ok g (fst st) (snd st)"
    and sb': "settled_but lim g (fst st) (snd st) u"
    using f(1) by (simp_all add: turn_inv_def)
  have st': "settled lim g (fst st) (snd st)"
    unfolding settled_def
  proof (intro ballI impI)
    fix x assume x: "x \<in> keys g" "dist_of (fst st) x < INT_MAX"
    show "x \<in> snd ` set (snd st) \<or> closed_at lim g (fst st) x"
    proof (cases "x = u")
      case True
      then show ?thesis using cu by simp
    next
      case False
      then show ?thesis using sb' x by (simp add: settled_but_def)
    qed
  qed
  have "final_ok lim g s (dijkstra_loop g (fst st) (snd st))"
    using "2.IH" [OF m _ "2.prems"(1-3) inv' fr' st'] rs(2) by (simp add: st_def u_def)
  then show ?case using m by (simp add: st_def u_def Let_def)
qed

lemma init_dist:
  "dist_of (init_paths g s) x = (if x \<in> keys g \<and> x \<noteq> s then INT_MAX else 0)"
  by (simp add: dist_of_def paths_get_def init_paths_apply)

lemma init_pred: "pred_of (init_paths g s) x = []"
  by (simp add: pred_of_def paths_get_def init_paths_apply)

lemma init_inv:
  assumes s: "s \<in> keys g"
  shows "engine_inv g s (init_paths g s)"
proof -
  let ?P = "init_paths g s"
  have "records_ok g s ?P"
    using s by (auto simp: records_ok_def init_dist init_paths_apply INT_MAX_def dom_def)
  moreover have "links_ok g ?P" by (simp add: links_ok_def init_pred)
  moreover have "trails_ok g s ?P"
    unfolding trails_ok_def
  proof (intro ballI impI)
    fix v assume "v \<in> keys g" "dist_of ?P v < INT_MAX"
    then have v: "v = s" by (auto simp: init_dist split: if_splits)
    have "trail g ?P s [s] 0 s" by (rule trail_start) (simp add: init_dist)
    then show "\<exists>vs. trail g ?P s vs (dist_of ?P v) v" using v by (auto simp: init_dist)
  qed
  moreover have "chains_ok g s ?P"
    unfolding chains_ok_def
  proof (intro ballI impI)
    fix v assume "v \<in> keys g" "dist_of ?P v < INT_MAX"
    then have "v = s" by (auto simp: init_dist split: if_splits)
    then have "chain ?P s (v # [])" by simp
    then show "\<exists>c. chain ?P s (v # c)" by blast
  qed
  ultimately show ?thesis by (simp add: engine_inv_def)
qed

lemma engine_final:
  assumes "graph_ok g" and "nonneg g" and "lim \<le> INT_MAX + 1" and sb: "sums_below lim g s"
    and s: "s \<in> keys g"
  shows "final_ok lim g s (Dijkstra g s t)"
proof -
  let ?P = "init_paths g s"
  have fr: "frontier_ok g ?P [(0, s)]" using s by (simp add: frontier_ok_def init_dist INT_MAX_def)
  have st: "settled lim g ?P [(0, s)]" by (auto simp: settled_def init_dist split: if_splits)
  have rs: "run_sums_below lim g ?P [(0, s)]" using sb by (simp add: sums_below_def)
  show ?thesis
    unfolding Dijkstra_def by (rule loop_inv [OF assms(1-3) init_inv [OF s] fr st rs])
qed

section \<open>The map that the engine returns\<close>


lemma final_origin:
  assumes "final_ok lim g s P"
  shows "P s = Some (0, [])" and "dist_of P s = 0" and "dom P = keys g"
  using assms by (simp_all add: final_ok_def engine_inv_def records_ok_def dist_of_def paths_get_def)

lemma known_record: "t \<in> dom P \<Longrightarrow> P t = Some (dist_of P t, pred_of P t)"
  by (auto simp: dist_of_def pred_of_def paths_get_def)

subsection \<open>The first matching edge\<close>

lemma first_match_in: "(v, w) \<in> set es \<Longrightarrow> (v, first_match es v) \<in> set es"
  by (induction es) auto

lemma first_match_least:
  "sorted_wrt (<) es \<Longrightarrow> (v, w) \<in> set es \<Longrightarrow> first_match es v \<le> w"
proof (induction es)
  case Nil
  then show ?case by simp
next
  case (Cons a es)
  show ?case
  proof (cases "fst a = v")
    case True
    show ?thesis
    proof (cases "(v, w) = a")
      case True
      then show ?thesis by auto
    next
      case False
      then have "(v, w) \<in> set es" using Cons.prems(2) by auto
      then have "a < (v, w)" using Cons.prems(1) by auto
      then have "snd a < w" using True by (auto simp: less_prod_def)
      then show ?thesis using True by simp
    qed
  next
    case False
    then have "(v, w) \<in> set es" using Cons.prems(2) by auto
    then show ?thesis using Cons False by simp
  qed
qed

text \<open>In the returned map, the link from a node to its predecessor is the lightest edge
  between the two, the one that the scan finds first, and the two distances differ by
  its weight.\<close>

lemma final_link:
  assumes ok: "graph_ok g" and nn: "nonneg g" and fin: "final_ok lim g s P"
    and v: "v \<in> keys g" and p: "pred_of P v \<noteq> []"
  shows "pred_of P v \<in> keys g
     \<and> (v, first_match (edges_of g (pred_of P v)) v) \<in> set (edges_of g (pred_of P v))
     \<and> dist_of P v = dist_of P (pred_of P v) + first_match (edges_of g (pred_of P v)) v
     \<and> (\<forall>w. (v, w) \<in> set (edges_of g (pred_of P v))
           \<longrightarrow> first_match (edges_of g (pred_of P v)) v \<le> w)"
proof -
  define u where "u = pred_of P v"
  define m where "m = first_match (edges_of g u) v"
  have "links_ok g P" using fin by (simp add: final_ok_def engine_inv_def)
  then obtain e where e: "e \<in> set (edges_of g u)" "fst e = v"
      "dist_of P u + snd e \<le> dist_of P v" and dv: "dist_of P v < INT_MAX"
    using v p unfolding links_ok_def u_def by blast
  have uk: "u \<in> keys g" using e(1) by (rule edges_of_key)
  have w0: "0 \<le> snd e" using nn e(1) by (rule edges_of_nonneg)
  have du: "dist_of P u < INT_MAX" using e(3) dv w0 by simp
  have cl: "closed_at lim g P u" using fin uk du by (simp add: final_ok_def)
  have srt: "sorted_wrt (<) (edges_of g u)" using ok by (rule edges_of_sorted)
  have ein: "(v, snd e) \<in> set (edges_of g u)" using e(1,2) by (metis prod.collapse)
  have min: "(v, m) \<in> set (edges_of g u)" unfolding m_def using ein by (rule first_match_in)
  have least: "m \<le> w" if "(v, w) \<in> set (edges_of g u)" for w
    unfolding m_def using srt that by (rule first_match_least)
  have "dist_of P v \<le> dist_of P u + m" using cl min by (force simp: closed_at_def)
  moreover have "dist_of P u + m \<le> dist_of P v" using least [OF ein] e(3) by simp
  ultimately have "dist_of P v = dist_of P u + m" by simp
  then show ?thesis using uk min least by (simp add: u_def m_def)
qed

subsection \<open>The walk back and the legs\<close>

lemma walk_back_chain:
  assumes Ps: "P s = Some (0, [])" and s: "s \<noteq> []"
  shows "chain P s (x # c) \<Longrightarrow> x \<noteq> [] \<Longrightarrow> walk_back P x acc = Some (Inr (acc @ x # c))"
proof (induction c arbitrary: x acc)
  case Nil
  then have x: "x = s" by simp
  have "walk_back P s acc = walk_back P [] (acc @ [s])"
    using Ps s by (subst walk_back.simps) simp
  also have "\<dots> = Some (Inr (acc @ [s]))" by (subst walk_back.simps) simp
  finally show ?case using x by simp
next
  case (Cons y r)
  from Cons.prems(1) have y: "pred_of P x = y" "y \<noteq> []" "chain P s (y # r)" by auto
  obtain d where Px: "P x = Some (d, y)"
    using y(1,2) by (cases "P x") (auto simp: pred_of_def paths_get_def)
  have "walk_back P x acc = walk_back P y (acc @ [x])"
    using Px Cons.prems(2) by (subst walk_back.simps) simp
  also have "\<dots> = Some (Inr ((acc @ [x]) @ y # r))" by (rule Cons.IH [OF y(3,2)])
  finally show ?case by simp
qed

lemma chain_last: "chain P s (x # c) \<Longrightarrow> last (x # c) = s"
  by (induction c arbitrary: x) auto

lemma legs_snoc:
  "legs g (xs @ [y, x]) =
     (case legs g (xs @ [y]) of
        Inl e \<Rightarrow> Inl e
      | Inr ls \<Rightarrow>
          (case map_of g y of
             None \<Rightarrow> Inl OutOfRange
           | Some es \<Rightarrow> Inr (ls @ [(y, x, first_match es x)])))"
proof (induction xs)
  case Nil
  then show ?case by (simp split: option.splits)
next
  case (Cons a xs)
  show ?case
  proof (cases xs)
    case Nil
    then show ?thesis by (simp split: option.splits sum.splits)
  next
    case (Cons b zs)
    then show ?thesis using Cons.IH by (simp split: option.splits sum.splits)
  qed
qed

definition leg_weights :: "leg list \<Rightarrow> int" where
  "leg_weights ls = sum_list (map (\<lambda>l. snd (snd l)) ls)"

lemma chain_legs:
  assumes ok: "graph_ok g" and nn: "nonneg g" and fin: "final_ok lim g s P"
  shows "chain P s (x # c) \<Longrightarrow> x \<in> keys g \<Longrightarrow>
     \<exists>ls. legs g (rev (x # c)) = Inr ls
        \<and> leg_weights ls = dist_of P x - dist_of P s
        \<and> (\<forall>l \<in> set ls. fst (snd l) \<in> keys g \<and> fst l = pred_of P (fst (snd l)) \<and> fst l \<noteq> []
              \<and> snd (snd l) = first_match (edges_of g (fst l)) (fst (snd l)))"
proof (induction c arbitrary: x)
  case Nil
  then show ?case by (simp add: leg_weights_def)
next
  case (Cons y r)
  from Cons.prems(1) have y: "pred_of P x = y" "y \<noteq> []" "chain P s (y # r)" by auto
  have px: "pred_of P x \<noteq> []" using y by simp
  note lk = final_link [OF ok nn fin Cons.prems(2) px, unfolded y(1)]
  have yk: "y \<in> keys g" using lk by simp
  obtain ls where ls: "legs g (rev (y # r)) = Inr ls"
      "leg_weights ls = dist_of P y - dist_of P s"
      "\<forall>l \<in> set ls. fst (snd l) \<in> keys g \<and> fst l = pred_of P (fst (snd l)) \<and> fst l \<noteq> []
              \<and> snd (snd l) = first_match (edges_of g (fst l)) (fst (snd l))"
    using Cons.IH [OF y(3) yk] by blast
  define l where "l = (y, x, first_match (edges_of g y) x)"
  have "legs g (rev (x # y # r)) = legs g (rev r @ [y, x])" by simp
  also have "\<dots> = Inr (ls @ [l])"
    using ls(1) key_edges [OF yk] by (simp add: legs_snoc l_def)
  finally have a: "legs g (rev (x # y # r)) = Inr (ls @ [l])" .
  have b: "leg_weights (ls @ [l]) = dist_of P x - dist_of P s"
    using ls(2) lk by (simp add: leg_weights_def l_def)
  have c: "\<forall>l' \<in> set (ls @ [l]). fst (snd l') \<in> keys g \<and> fst l' = pred_of P (fst (snd l'))
      \<and> fst l' \<noteq> [] \<and> snd (snd l') = first_match (edges_of g (fst l')) (fst (snd l'))"
    using ls(3) Cons.prems(2) y(1,2) by (auto simp: l_def)
  show ?case using a b c by blast
qed

text \<open>A walk that starts inside a set of nodes, each with a predecessor in the set, never
  ends.\<close>

lemma walk_back_never:
  assumes cyc: "\<And>c. c \<in> C \<Longrightarrow> c \<noteq> [] \<and> (\<exists>r. P c = Some r \<and> snd r \<in> C)"
    and c: "c \<in> C"
  shows "walk_back P c acc = None"
proof (rule ccontr)
  assume "walk_back P c acc \<noteq> None"
  then obtain y where y: "walk_back P c acc = Some y" by auto
  have "fst (fst ((P, c), acc)) = P \<longrightarrow> snd (fst ((P, c), acc)) \<notin> C"
  proof (rule walk_back.raw_induct
      [where Pa = "\<lambda>x y. fst (fst x) = P \<longrightarrow> snd (fst x) \<notin> C", OF _ y])
    fix wb :: "Paths \<Rightarrow> string \<Rightarrow> string list \<Rightarrow> (error + string list) option"
    fix P' current path res
    assume IH: "\<And>current path b y. wb current path b = Some y \<Longrightarrow>
        fst (fst ((current, path), b)) = P \<longrightarrow> snd (fst ((current, path), b)) \<notin> C"
      and body: "(if current = [] then Some (Inr path)
          else case P' current of None \<Rightarrow> Some (Inl OutOfRange)
               | Some r \<Rightarrow> wb P' (snd r) (path @ [current])) = Some res"
    show "fst (fst ((P', current), path)) = P \<longrightarrow> snd (fst ((P', current), path)) \<notin> C"
    proof (intro impI notI)
      assume "fst (fst ((P', current), path)) = P" and "snd (fst ((P', current), path)) \<in> C"
      then have P': "P' = P" and cur: "current \<in> C" by simp_all
      obtain r where r: "current \<noteq> []" "P current = Some r" "snd r \<in> C"
        using cyc [OF cur] by blast
      have "wb P (snd r) (path @ [current]) = Some res" using body r P' by simp
      then have "snd r \<notin> C" using IH by fastforce
      then show False using r(3) by simp
    qed
  qed
  then show False using c by simp
qed

section \<open>Graphs that the loader builds\<close>

lemma extract_string_nonempty: "extract_string inp = Some (tok, r) \<Longrightarrow> tok \<noteq> []"
  by (auto simp: extract_string_def Let_def split: if_splits)

lemma read_edge_nonempty: "read_edge l = Some (s, d, w) \<Longrightarrow> s \<noteq> [] \<and> d \<noteq> []"
  using extract_string_nonempty by (fastforce simp: read_edge_def split: option.splits)

lemma edges_of_add_line:
  assumes "read_edge l = Some (s, d, w)" and "sorted_wrt (<) (map fst g)"
  shows "edges_of (add_line g l) k =
     (if k = s then set_insert (d, w) (edges_of g s) else edges_of g k)"
  by (simp add: edges_of_def add_line_map_of [OF assms])

lemma load_edges_sorted: "sorted_wrt (<) (edges_of (loadFromFile ls) k)"
proof (induction ls arbitrary: k rule: rev_induct)
  case Nil
  then show ?case by (simp add: loadFromFile_def edges_of_def)
next
  case (snoc l ls)
  show ?case
  proof (cases "read_edge l")
    case None
    then show ?thesis using snoc by (simp add: loadFromFile_snoc add_line_def)
  next
    case (Some r)
    obtain s d w where r: "read_edge l = Some (s, d, w)" using Some by (cases r) simp
    show ?thesis
      using snoc
      by (simp add: loadFromFile_snoc edges_of_add_line [OF r load_sorted] sorted_set_insert)
  qed
qed

lemma load_graph_ok: "graph_ok (loadFromFile ls)"
proof -
  let ?g = "loadFromFile ls"
  have "sorted_wrt (<) (snd node)" if "node \<in> set ?g" for node
  proof -
    have "map_of ?g (fst node) = Some (snd node)"
      using that sorted_keys_distinct [OF load_sorted] by simp
    then have "snd node = edges_of ?g (fst node)" by (simp add: edges_of_def)
    then show ?thesis using load_edges_sorted [of ls "fst node"] by simp
  qed
  moreover have "dests ?g \<subseteq> keys ?g" using load_dests [of ls] by (simp add: load_keys)
  moreover have "[] \<notin> keys ?g"
    by (auto simp: load_keys mentioned_def dest: read_edge_nonempty)
  ultimately show ?thesis using load_sorted [of ls] by (simp add: graph_ok_def)
qed

section \<open>Resolved queries\<close>

definition result_text :: "string \<Rightarrow> string \<Rightarrow> int \<Rightarrow> leg list \<Rightarrow> string" where
  "result_text start dest totalDistance ls =
     ''Trasa: '' @ start @ '' --> '' @ dest @ '' ('' @ show_int totalDistance @ '' km):'' @ endl
       @ concat (map leg_line ls) @ endl"

lemma process_resolved:
  assumes "map_of g s \<noteq> None" and "map_of g t \<noteq> None"
    and "Dijkstra g s t t = Some (d, q)" and "d \<noteq> INT_MAX"
    and "route g (Dijkstra g s t) t = Some (Inr ls)"
  shows "process_query g s t = ([EngineRun s t, Saved (result_text s t d ls)], Finished)"
  using assms
  by (auto simp: process_query_def Let_def paths_get_def paths_ref_def createResultsMessage_def
      result_text_def)

lemma resolved_facts:
  assumes ok: "graph_ok g" and nn: "nonneg g"
    and lim: "lim \<le> INT_MAX + 1" and sb: "sums_below lim g s"
    and s: "s \<in> keys g" and t: "t \<in> keys g"
    and rec: "Dijkstra g s t t = Some (d, q)" and d: "d \<noteq> INT_MAX"
  shows "final_ok lim g s (Dijkstra g s t)" and "dist_of (Dijkstra g s t) t = d"
    and "\<exists>c. chain (Dijkstra g s t) s (t # c)"
proof -
  let ?P = "Dijkstra g s t"
  show fin: "final_ok lim g s ?P" using ok nn lim sb s by (rule engine_final)
  show dt: "dist_of ?P t = d" using rec by (simp add: dist_of_def paths_get_def)
  have "dist_of ?P t \<le> INT_MAX"
    using fin by (simp add: final_ok_def engine_inv_def records_ok_def)
  then have "dist_of ?P t < INT_MAX" using d dt by simp
  moreover have "chains_ok g s ?P" using fin by (simp add: final_ok_def engine_inv_def)
  ultimately show "\<exists>c. chain ?P s (t # c)" using t by (simp add: chains_ok_def)
qed

lemma resolved_walk:
  assumes ok: "graph_ok g" and nn: "nonneg g" and fin: "final_ok lim g s P"
    and s: "s \<in> keys g" and t: "t \<in> keys g" and c: "chain P s (t # c)"
  shows "walk_back P t [] = Some (Inr (t # c))" and "set (t # c) \<subseteq> keys g"
    and "last (t # c) = s"
    and "\<exists>ls. legs g (rev (t # c)) = Inr ls \<and> route g P t = Some (Inr ls)
          \<and> leg_weights ls = dist_of P t
          \<and> (\<forall>l \<in> set ls. fst (snd l) \<in> keys g \<and> fst l = pred_of P (fst (snd l))
                \<and> fst l \<noteq> []
                \<and> snd (snd l) = first_match (edges_of g (fst l)) (fst (snd l)))"
proof -
  have ne: "[] \<notin> keys g" using ok by (simp add: graph_ok_def)
  have sne: "s \<noteq> []" and tne: "t \<noteq> []" using s t ne by auto
  show w: "walk_back P t [] = Some (Inr (t # c))"
    using walk_back_chain [OF final_origin(1) [OF fin] sne c tne, of "[]"] by simp
  have lnk: "links_ok g P" using fin by (simp add: final_ok_def engine_inv_def)
  show "set (t # c) \<subseteq> keys g" using chain_below [OF lnk nn c t] by blast
  show "last (t # c) = s" using c by (rule chain_last)
  obtain ls where ls: "legs g (rev (t # c)) = Inr ls"
      "leg_weights ls = dist_of P t - dist_of P s"
      "\<forall>l \<in> set ls. fst (snd l) \<in> keys g \<and> fst l = pred_of P (fst (snd l)) \<and> fst l \<noteq> []
          \<and> snd (snd l) = first_match (edges_of g (fst l)) (fst (snd l))"
    using chain_legs [OF ok nn fin c t] by blast
  have "route g P t = Some (Inr ls)" using w ls(1) by (simp add: route_def)
  moreover have "leg_weights ls = dist_of P t" using ls(2) final_origin(2) [OF fin] by simp
  ultimately show "\<exists>ls. legs g (rev (t # c)) = Inr ls \<and> route g P t = Some (Inr ls)
          \<and> leg_weights ls = dist_of P t
          \<and> (\<forall>l \<in> set ls. fst (snd l) \<in> keys g \<and> fst l = pred_of P (fst (snd l))
                \<and> fst l \<noteq> []
                \<and> snd (snd l) = first_match (edges_of g (fst l)) (fst (snd l)))"
    using ls(1,3) by blast
qed

section \<open>Example graphs\<close>

text \<open>Edge lists with weights near the largest \<open>int\<close>: in the first three every sum of
  the run fits, in the last three the run forms a sum that does not.\<close>

definition heavy_graph :: Graph where
  "heavy_graph = loadFromFile [''A B 2147483646'', ''A C 1'', ''C B 1'', ''B D 5'']"

definition heavy_twin_graph :: Graph where
  "heavy_twin_graph = loadFromFile [''A B 2147483646'', ''A B 5'', ''B C 3'']"

definition sentinel_graph :: Graph where
  "sentinel_graph = loadFromFile [''A B 2147483647'']"

definition overflow_graph :: Graph where
  "overflow_graph = loadFromFile [''A B 2147483646'', ''B C 2'']"

definition cycle_graph :: Graph where
  "cycle_graph = loadFromFile [''A B 2147483646'', ''B A 2'']"

definition parallel_graph :: Graph where
  "parallel_graph = loadFromFile [''A B 10'', ''B C 2147483647'', ''B C 5'']"

lemma heavy_graph_eq:
  "heavy_graph =
     [(''A'', [(''B'', 2147483646), (''C'', 1)]), (''B'', [(''D'', 5)]), (''C'', [(''B'', 1)]),
      (''D'', [])]"
  by (simp add: heavy_graph_def load_defs)

lemma heavy_twin_graph_eq:
  "heavy_twin_graph =
     [(''A'', [(''B'', 5), (''B'', 2147483646)]), (''B'', [(''C'', 3)]), (''C'', [])]"
  by (simp add: heavy_twin_graph_def load_defs)

lemma sentinel_graph_eq: "sentinel_graph = [(''A'', [(''B'', 2147483647)]), (''B'', [])]"
  by (simp add: sentinel_graph_def load_defs)

lemma overflow_graph_eq:
  "overflow_graph = [(''A'', [(''B'', 2147483646)]), (''B'', [(''C'', 2)]), (''C'', [])]"
  by (simp add: overflow_graph_def load_defs)

lemma cycle_graph_eq:
  "cycle_graph = [(''A'', [(''B'', 2147483646)]), (''B'', [(''A'', 2)])]"
  by (simp add: cycle_graph_def load_defs)

lemma parallel_graph_eq:
  "parallel_graph =
     [(''A'', [(''B'', 10)]), (''B'', [(''C'', 5), (''C'', 2147483647)]), (''C'', [])]"
  by (simp add: parallel_graph_def load_defs)

lemmas sums_defs = sums_below_def sum_below_def init_paths_def relax_def paths_ref_def
  paths_get_def wrap32_def INT_MAX_def Let_def

lemma heavy_side:
  "graph_ok heavy_graph" "nonneg heavy_graph" "sums_below INT_MAX heavy_graph ''A''"
  "sums_below (INT_MAX + 1) heavy_graph ''A''"
proof -
  show "graph_ok heavy_graph" unfolding heavy_graph_def by (rule load_graph_ok)
  show "nonneg heavy_graph" by (simp add: heavy_graph_eq nonneg_def)
  show "sums_below INT_MAX heavy_graph ''A''" by (simp add: heavy_graph_eq sums_defs)
  show "sums_below (INT_MAX + 1) heavy_graph ''A''" by (simp add: heavy_graph_eq sums_defs)
qed

lemma heavy_twin_side:
  "graph_ok heavy_twin_graph" "nonneg heavy_twin_graph"
  "sums_below (INT_MAX + 1) heavy_twin_graph ''A''"
proof -
  show "graph_ok heavy_twin_graph" unfolding heavy_twin_graph_def by (rule load_graph_ok)
  show "nonneg heavy_twin_graph" by (simp add: heavy_twin_graph_eq nonneg_def)
  show "sums_below (INT_MAX + 1) heavy_twin_graph ''A''"
    by (simp add: heavy_twin_graph_eq sums_defs)
qed

lemma sentinel_side:
  "graph_ok sentinel_graph" "nonneg sentinel_graph"
  "sums_below (INT_MAX + 1) sentinel_graph ''A''"
proof -
  show "graph_ok sentinel_graph" unfolding sentinel_graph_def by (rule load_graph_ok)
  show "nonneg sentinel_graph" by (simp add: sentinel_graph_eq nonneg_def)
  show "sums_below (INT_MAX + 1) sentinel_graph ''A''"
    by (simp add: sentinel_graph_eq sums_defs)
qed

lemma int_limit: "INT_MAX \<le> INT_MAX + 1" "INT_MAX + 1 \<le> INT_MAX + 1"
  by simp_all

section \<open>The distance is the least weight of a path\<close>




text \<open>The limit of C1 is \<open>INT_MAX\<close> itself: on the edge list A B 2147483647, B C 1 no
  addition overflows, the one sum is equal to the sentinel, B and C keep the unreached
  record, and the only path from A to C weighs \<open>2^31\<close>.\<close>

lemma sum_equal_to_sentinel:
  "sums_below (INT_MAX + 1) (loadFromFile [''A B 2147483647'', ''B C 1'']) ''A''
   \<and> \<not> sums_below INT_MAX (loadFromFile [''A B 2147483647'', ''B C 1'']) ''A''
   \<and> Dijkstra (loadFromFile [''A B 2147483647'', ''B C 1'']) ''A'' ''C'' ''C'' = Some (INT_MAX, [])
   \<and> is_path (loadFromFile [''A B 2147483647'', ''B C 1'']) ''A''
         [(''B'', 2147483647), (''C'', 1)] ''C''"
  by (simp add: load_defs sums_defs engine_defs edges_of_def)

section \<open>The legs of a resolved query\<close>

text \<open>
  C2. For every graph with non-negative weights, every origin such that no sum formed
  by the run of the engine from it exceeds \<open>INT_MAX\<close>, and every query from that origin
  classified as resolved (both endpoints are keys and the final distance of the
  destination is not the sentinel): the reconstructor returns a list of legs, the
  message of the query reports the recorded distance as the total, and the weights of
  the legs sum to that total.
\<close>

theorem legs_sum_to_total:
  assumes "graph_ok g" and "nonneg g" and "sums_below (INT_MAX + 1) g s"
    and "s \<in> keys g" and "t \<in> keys g"
    and "Dijkstra g s t t = Some (d, q)" and "d \<noteq> INT_MAX"
  shows "\<exists>ls. route g (Dijkstra g s t) t = Some (Inr ls)
      \<and> process_query g s t = ([EngineRun s t, Saved (result_text s t d ls)], Finished)
      \<and> leg_weights ls = d"
proof -
  let ?P = "Dijkstra g s t"
  note f = resolved_facts [OF assms(1,2) int_limit(2) assms(3-7)]
  obtain c where c: "chain ?P s (t # c)" using f(3) by blast
  obtain ls where ls: "route g ?P t = Some (Inr ls)" "leg_weights ls = dist_of ?P t"
    using resolved_walk(4) [OF assms(1,2) f(1) assms(4,5) c] by blast
  have "map_of g s \<noteq> None" and "map_of g t \<noteq> None"
    using assms(4,5) by (auto simp: keys_dom)
  then have "process_query g s t = ([EngineRun s t, Saved (result_text s t d ls)], Finished)"
    using assms(6,7) ls(1) by (rule process_resolved)
  then show ?thesis using ls f(2) by blast
qed

theorem legs_sum_to_total_witness:
  "graph_ok heavy_graph \<and> nonneg heavy_graph \<and> sums_below (INT_MAX + 1) heavy_graph ''A''
   \<and> ''A'' \<in> keys heavy_graph \<and> ''D'' \<in> keys heavy_graph
   \<and> Dijkstra heavy_graph ''A'' ''D'' ''D'' = Some (7, ''B'') \<and> 7 \<noteq> INT_MAX
   \<and> route heavy_graph (Dijkstra heavy_graph ''A'' ''D'') ''D'' =
        Some (Inr [(''A'', ''C'', 1), (''C'', ''B'', 1), (''B'', ''D'', 5)])
   \<and> process_query heavy_graph ''A'' ''D'' =
        ([EngineRun ''A'' ''D'',
          Saved (''Trasa: A --> D (7 km):'' @ endl @ ''A --> C 1 km'' @ endl
                 @ ''C --> B 1 km'' @ endl @ ''B --> D 5 km'' @ endl @ endl)], Finished)
   \<and> leg_weights [(''A'', ''C'', 1), (''C'', ''B'', 1), (''B'', ''D'', 5)] = 7"
proof -
  have k: "''A'' \<in> keys heavy_graph" "''D'' \<in> keys heavy_graph"
    by (simp_all add: heavy_graph_eq keys_def)
  have ev: "Dijkstra heavy_graph ''A'' ''D'' ''D'' = Some (7, ''B'')"
    by (simp add: heavy_graph_eq engine_defs)
  have m: "(7::int) \<noteq> INT_MAX" by (simp add: INT_MAX_def)
  have r: "route heavy_graph (Dijkstra heavy_graph ''A'' ''D'') ''D'' =
        Some (Inr [(''A'', ''C'', 1), (''C'', ''B'', 1), (''B'', ''D'', 5)])"
    by (simp add: heavy_graph_eq engine_defs query_defs)
  have "process_query heavy_graph ''A'' ''D'' =
      ([EngineRun ''A'' ''D'',
        Saved (result_text ''A'' ''D'' 7 [(''A'', ''C'', 1), (''C'', ''B'', 1), (''B'', ''D'', 5)])],
       Finished)
    \<and> leg_weights [(''A'', ''C'', 1), (''C'', ''B'', 1), (''B'', ''D'', 5)] = 7"
    using legs_sum_to_total [OF heavy_side(1,2,4) k ev m] r by simp
  then show ?thesis
    using heavy_side(1,2,4) k ev m r
    by (simp add: result_text_def leg_line_def show_int_def endl_def)
qed

text \<open>A run with a sum beyond \<open>INT_MAX\<close>: the query from A to C is resolved with the total
  \<open>- 2^31\<close>, and its two legs sum to \<open>2^31\<close>.\<close>

theorem overflow_legs_differ_from_total:
  "nonneg overflow_graph \<and> ''A'' \<in> keys overflow_graph \<and> ''C'' \<in> keys overflow_graph
   \<and> process_query overflow_graph ''A'' ''C'' =
        ([EngineRun ''A'' ''C'',
          Saved (result_text ''A'' ''C'' (- 2147483648)
                   [(''A'', ''B'', 2147483646), (''B'', ''C'', 2)])], Finished)
   \<and> leg_weights [(''A'', ''B'', 2147483646), (''B'', ''C'', 2)] = 2147483648"
proof -
  have nn: "nonneg overflow_graph" by (simp add: overflow_graph_eq nonneg_def)
  have k: "''A'' \<in> keys overflow_graph" "''C'' \<in> keys overflow_graph"
    by (simp_all add: overflow_graph_eq keys_def)
  have ev: "Dijkstra overflow_graph ''A'' ''C'' ''C'' = Some (- 2147483648, ''B'')"
    by (simp add: overflow_graph_eq engine_defs)
  have m: "(- 2147483648::int) \<noteq> INT_MAX" by (simp add: INT_MAX_def)
  have r: "route overflow_graph (Dijkstra overflow_graph ''A'' ''C'') ''C'' =
        Some (Inr [(''A'', ''B'', 2147483646), (''B'', ''C'', 2)])"
    by (simp add: overflow_graph_eq engine_defs query_defs)
  have "process_query overflow_graph ''A'' ''C'' =
        ([EngineRun ''A'' ''C'',
          Saved (result_text ''A'' ''C'' (- 2147483648)
                   [(''A'', ''B'', 2147483646), (''B'', ''C'', 2)])], Finished)"
    by (rule process_resolved [OF _ _ ev m r]) (simp_all add: overflow_graph_eq)
  then show ?thesis using nn k by (simp add: leg_weights_def)
qed

section \<open>A query from a node to itself\<close>

text \<open>
  C6. For every graph with non-negative weights and every key of the graph such that
  no sum formed by the run of the engine from it exceeds \<open>INT_MAX\<close>, the query from
  that node to itself is resolved: the recorded distance is 0 with no predecessor, the
  list of legs is empty, and the message reports 0 km and no leg.
\<close>

theorem same_node_zero_no_legs:
  assumes "graph_ok g" and "nonneg g" and "sums_below (INT_MAX + 1) g s" and "s \<in> keys g"
  shows "Dijkstra g s s s = Some (0, [])
      \<and> route g (Dijkstra g s s) s = Some (Inr [])
      \<and> process_query g s s = ([EngineRun s s, Saved (result_text s s 0 [])], Finished)"
proof -
  let ?P = "Dijkstra g s s"
  have fin: "final_ok (INT_MAX + 1) g s ?P"
    using assms(1,2) int_limit(2) assms(3,4) by (rule engine_final)
  have Ps: "?P s = Some (0, [])" using fin by (rule final_origin)
  have "s \<noteq> []" using assms(1,4) by (auto simp: graph_ok_def)
  then have "walk_back ?P s [] = walk_back ?P [] [s]"
    using Ps by (subst walk_back.simps) simp
  also have "\<dots> = Some (Inr [s])" by (subst walk_back.simps) simp
  finally have r: "route g ?P s = Some (Inr [])" by (simp add: route_def)
  have m: "map_of g s \<noteq> None" using assms(4) by (auto simp: keys_dom)
  have z: "(0::int) \<noteq> INT_MAX" by (simp add: INT_MAX_def)
  have "process_query g s s = ([EngineRun s s, Saved (result_text s s 0 [])], Finished)"
    using m m Ps z r by (rule process_resolved)
  then show ?thesis using Ps r by simp
qed

theorem same_node_zero_no_legs_witness:
  "graph_ok sentinel_graph \<and> nonneg sentinel_graph
   \<and> sums_below (INT_MAX + 1) sentinel_graph ''A'' \<and> ''A'' \<in> keys sentinel_graph
   \<and> Dijkstra sentinel_graph ''A'' ''A'' ''A'' = Some (0, [])
   \<and> process_query sentinel_graph ''A'' ''A'' =
        ([EngineRun ''A'' ''A'', Saved (''Trasa: A --> A (0 km):'' @ endl @ endl)], Finished)"
proof -
  have k: "''A'' \<in> keys sentinel_graph" by (simp add: sentinel_graph_eq keys_def)
  show ?thesis
    using same_node_zero_no_legs [OF sentinel_side k] sentinel_side k
    by (simp add: result_text_def show_int_def)
qed

text \<open>A run with a sum beyond \<open>INT_MAX\<close>: on the edge list A B 2147483646, B A 2 the sum
  along the cycle wraps, the record of A becomes \<open>- 2^31\<close> with predecessor B, and the
  query from A to A is resolved with that total; its walk back never ends.\<close>

lemma cycle_records:
  "Dijkstra cycle_graph ''A'' t ''A'' = Some (- 2147483648, ''B'')"
  "Dijkstra cycle_graph ''A'' t ''B'' = Some (- 2, ''A'')"
  by (simp_all add: cycle_graph_eq engine_defs)

lemma cycle_walk: "c \<in> {''A'', ''B''} \<Longrightarrow> walk_back (Dijkstra cycle_graph ''A'' t) c acc = None"
proof (rule walk_back_never [where C = "{''A'', ''B''}"])
  fix c :: string
  assume "c \<in> {''A'', ''B''}"
  then show "c \<noteq> [] \<and> (\<exists>r. Dijkstra cycle_graph ''A'' t c = Some r \<and> snd r \<in> {''A'', ''B''})"
    by (auto simp: cycle_records)
qed

theorem overflow_same_node_not_zero:
  "nonneg cycle_graph \<and> ''A'' \<in> keys cycle_graph
   \<and> Dijkstra cycle_graph ''A'' ''A'' ''A'' = Some (- 2147483648, ''B'')
   \<and> process_query cycle_graph ''A'' ''A'' = ([EngineRun ''A'' ''A''], Hung)"
proof -
  have nn: "nonneg cycle_graph" by (simp add: cycle_graph_eq nonneg_def)
  have k: "''A'' \<in> keys cycle_graph" by (simp add: cycle_graph_eq keys_def)
  have ev: "Dijkstra cycle_graph ''A'' ''A'' ''A'' = Some (- 2147483648, ''B'')"
    by (simp add: cycle_records)
  have w: "walk_back (Dijkstra cycle_graph ''A'' ''A'') ''A'' [] = None"
    by (rule cycle_walk) simp
  have m: "map_of cycle_graph ''A'' \<noteq> None" by (simp add: cycle_graph_eq)
  have "process_query cycle_graph ''A'' ''A'' = ([EngineRun ''A'' ''A''], Hung)"
    using m ev w
    by (simp add: process_query_def Let_def paths_get_def paths_ref_def
        createResultsMessage_def route_def INT_MAX_def)
  then show ?thesis using nn k ev by simp
qed

section \<open>The weight of a leg\<close>

text \<open>
  C8. For every graph with non-negative weights, every origin such that no sum formed
  by the run of the engine from it exceeds \<open>INT_MAX\<close>, and every leg (u, v, w) of a
  resolved query from that origin, also when several edges with different weights lead
  from u to v: w is the weight of an edge from u to v, the record of v is the distance
  of u plus w with predecessor u (the relaxation that wrote the final record used the
  weight w), and no edge from u to v is lighter.
\<close>

theorem leg_weight_is_committed_weight:
  assumes "graph_ok g" and "nonneg g" and "sums_below (INT_MAX + 1) g s"
    and "s \<in> keys g" and "t \<in> keys g"
    and "Dijkstra g s t t = Some (d, q)" and "d \<noteq> INT_MAX"
    and "route g (Dijkstra g s t) t = Some (Inr ls)" and "(u, v, w) \<in> set ls"
  shows "(v, w) \<in> set (edges_of g u)
      \<and> Dijkstra g s t v = Some (dist_of (Dijkstra g s t) u + w, u)
      \<and> (\<forall>w'. (v, w') \<in> set (edges_of g u) \<longrightarrow> w \<le> w')"
proof -
  let ?P = "Dijkstra g s t"
  note f = resolved_facts [OF assms(1,2) int_limit(2) assms(3-7)]
  obtain c where c: "chain ?P s (t # c)" using f(3) by blast
  obtain ls' where ls': "route g ?P t = Some (Inr ls')"
      "\<forall>l \<in> set ls'. fst (snd l) \<in> keys g \<and> fst l = pred_of ?P (fst (snd l)) \<and> fst l \<noteq> []
          \<and> snd (snd l) = first_match (edges_of g (fst l)) (fst (snd l))"
    using resolved_walk(4) [OF assms(1,2) f(1) assms(4,5) c] by blast
  have "ls' = ls" using ls'(1) assms(8) by simp
  then have l: "v \<in> keys g" "u = pred_of ?P v" "u \<noteq> []" "w = first_match (edges_of g u) v"
    using ls'(2) assms(9) by force+
  have pv: "pred_of ?P v \<noteq> []" using l(2,3) by simp
  note lk = final_link [OF assms(1,2) f(1) l(1) pv, folded l(2), folded l(4)]
  have "v \<in> dom ?P" using l(1) final_origin(3) [OF f(1)] by simp
  then have "?P v = Some (dist_of ?P v, pred_of ?P v)" by (rule known_record)
  then have "?P v = Some (dist_of ?P u + w, u)" using lk l(2) by simp
  then show ?thesis using lk by blast
qed

theorem leg_weight_is_committed_weight_witness:
  "graph_ok heavy_twin_graph \<and> nonneg heavy_twin_graph
   \<and> sums_below (INT_MAX + 1) heavy_twin_graph ''A''
   \<and> ''A'' \<in> keys heavy_twin_graph \<and> ''C'' \<in> keys heavy_twin_graph
   \<and> Dijkstra heavy_twin_graph ''A'' ''C'' ''C'' = Some (8, ''B'') \<and> 8 \<noteq> INT_MAX
   \<and> route heavy_twin_graph (Dijkstra heavy_twin_graph ''A'' ''C'') ''C'' =
        Some (Inr [(''A'', ''B'', 5), (''B'', ''C'', 3)])
   \<and> (''A'', ''B'', 5) \<in> set [(''A'', ''B'', 5), (''B'', ''C'', 3)]
   \<and> edges_of heavy_twin_graph ''A'' = [(''B'', 5), (''B'', 2147483646)]
   \<and> Dijkstra heavy_twin_graph ''A'' ''C'' ''B'' =
        Some (dist_of (Dijkstra heavy_twin_graph ''A'' ''C'') ''A'' + 5, ''A'')"
proof -
  have k: "''A'' \<in> keys heavy_twin_graph" "''C'' \<in> keys heavy_twin_graph"
    by (simp_all add: heavy_twin_graph_eq keys_def)
  have ev: "Dijkstra heavy_twin_graph ''A'' ''C'' ''C'' = Some (8, ''B'')"
    by (simp add: heavy_twin_graph_eq engine_defs)
  have m: "(8::int) \<noteq> INT_MAX" by (simp add: INT_MAX_def)
  have r: "route heavy_twin_graph (Dijkstra heavy_twin_graph ''A'' ''C'') ''C'' =
        Some (Inr [(''A'', ''B'', 5), (''B'', ''C'', 3)])"
    by (simp add: heavy_twin_graph_eq engine_defs query_defs)
  have l: "(''A'', ''B'', 5) \<in> set [(''A'', ''B'', 5::int), (''B'', ''C'', 3)]" by simp
  have e: "edges_of heavy_twin_graph ''A'' = [(''B'', 5), (''B'', 2147483646)]"
    by (simp add: heavy_twin_graph_eq edges_of_def)
  show ?thesis
    using leg_weight_is_committed_weight [OF heavy_twin_side k ev m r l]
      heavy_twin_side k ev m r e
    by simp
qed

text \<open>A run with a sum beyond \<open>INT_MAX\<close>: on the edge list A B 10, B C 2147483647, B C 5
  the record of C is written last by the relaxation with the weight 2147483647, whose
  sum wraps below 15, and the leg from B to C reports the weight 5.\<close>

theorem overflow_leg_weight_differs:
  "nonneg parallel_graph \<and> ''A'' \<in> keys parallel_graph \<and> ''C'' \<in> keys parallel_graph
   \<and> route parallel_graph (Dijkstra parallel_graph ''A'' ''C'') ''C'' =
        Some (Inr [(''A'', ''B'', 10), (''B'', ''C'', 5)])
   \<and> Dijkstra parallel_graph ''A'' ''C'' ''B'' = Some (10, ''A'')
   \<and> Dijkstra parallel_graph ''A'' ''C'' ''C'' = Some (wrap32 (10 + 2147483647), ''B'')
   \<and> wrap32 (10 + 2147483647) = - 2147483639 \<and> wrap32 (10 + 5) = 15"
  by (simp add: parallel_graph_eq engine_defs query_defs nonneg_def keys_def)

section \<open>The walk back ends\<close>

text \<open>
  C10. For every graph with non-negative weights, every source that is a key such that
  no sum formed by the run of the engine from it exceeds \<open>INT_MAX\<close>, and every
  destination that is a key with a final distance other than the sentinel: the backward
  walk over the predecessors ends, every lookup finds its key, the collected list is
  not empty, begins with the destination and ends with the source, so that the reversed
  list begins with the source and ends with the destination, all its nodes are keys of
  the graph, and the loop over the legs returns a list.
\<close>

theorem walk_back_terminates:
  assumes "graph_ok g" and "nonneg g" and "sums_below (INT_MAX + 1) g s"
    and "s \<in> keys g" and "t \<in> keys g"
    and "Dijkstra g s t t = Some (d, q)" and "d \<noteq> INT_MAX"
  shows "\<exists>path. walk_back (Dijkstra g s t) t [] = Some (Inr path)
      \<and> path \<noteq> [] \<and> hd path = t \<and> last path = s
      \<and> hd (rev path) = s \<and> last (rev path) = t
      \<and> set path \<subseteq> keys g
      \<and> (\<exists>ls. legs g (rev path) = Inr ls)"
proof -
  let ?P = "Dijkstra g s t"
  note f = resolved_facts [OF assms(1,2) int_limit(2) assms(3-7)]
  obtain c where c: "chain ?P s (t # c)" using f(3) by blast
  note w = resolved_walk [OF assms(1,2) f(1) assms(4,5) c]
  have "hd (rev (t # c)) = s" using w(3) by (simp only: hd_rev)
  moreover have "last (rev (t # c)) = t" by (simp only: last_rev list.sel)
  moreover have "\<exists>ls. legs g (rev (t # c)) = Inr ls" using w(4) by blast
  ultimately show ?thesis using w(1,2,3) by (intro exI [of _ "t # c"]) simp
qed

theorem walk_back_terminates_witness:
  "graph_ok heavy_graph \<and> nonneg heavy_graph \<and> sums_below (INT_MAX + 1) heavy_graph ''A''
   \<and> ''A'' \<in> keys heavy_graph \<and> ''D'' \<in> keys heavy_graph
   \<and> Dijkstra heavy_graph ''A'' ''D'' ''D'' = Some (7, ''B'') \<and> 7 \<noteq> INT_MAX
   \<and> walk_back (Dijkstra heavy_graph ''A'' ''D'') ''D'' [] =
        Some (Inr [''D'', ''B'', ''C'', ''A''])
   \<and> (\<exists>path. walk_back (Dijkstra heavy_graph ''A'' ''D'') ''D'' [] = Some (Inr path)
         \<and> hd (rev path) = ''A'' \<and> last (rev path) = ''D'')"
proof -
  have k: "''A'' \<in> keys heavy_graph" "''D'' \<in> keys heavy_graph"
    by (simp_all add: heavy_graph_eq keys_def)
  have ev: "Dijkstra heavy_graph ''A'' ''D'' ''D'' = Some (7, ''B'')"
    by (simp add: heavy_graph_eq engine_defs)
  have m: "(7::int) \<noteq> INT_MAX" by (simp add: INT_MAX_def)
  have w: "walk_back (Dijkstra heavy_graph ''A'' ''D'') ''D'' [] =
        Some (Inr [''D'', ''B'', ''C'', ''A''])"
    by (simp add: heavy_graph_eq engine_defs walk_back.simps)
  have "\<exists>path. walk_back (Dijkstra heavy_graph ''A'' ''D'') ''D'' [] = Some (Inr path)
         \<and> hd (rev path) = ''A'' \<and> last (rev path) = ''D''"
    using walk_back_terminates [OF heavy_side(1,2,4) k ev m] by blast
  then show ?thesis using heavy_side(1,2,4) k ev m w by blast
qed

text \<open>A run with a sum beyond \<open>INT_MAX\<close>: on the edge list A B 2147483646, B A 2, which
  has every destination among its keys, the distance of B from the source A ends as
  \<open>- 2\<close>, and the walk back from B goes round A and B for ever.\<close>

theorem overflow_walk_back_never_ends:
  "dests cycle_graph \<subseteq> keys cycle_graph \<and> nonneg cycle_graph
   \<and> ''A'' \<in> keys cycle_graph \<and> ''B'' \<in> keys cycle_graph
   \<and> Dijkstra cycle_graph ''A'' ''B'' ''B'' = Some (- 2, ''A'')
   \<and> walk_back (Dijkstra cycle_graph ''A'' ''B'') ''B'' [] = None"
proof -
  have "dests cycle_graph \<subseteq> keys cycle_graph \<and> nonneg cycle_graph
      \<and> ''A'' \<in> keys cycle_graph \<and> ''B'' \<in> keys cycle_graph"
    by (simp add: cycle_graph_eq nonneg_def keys_def dests_def)
  moreover have "walk_back (Dijkstra cycle_graph ''A'' ''B'') ''B'' [] = None"
    by (rule cycle_walk) simp
  ultimately show ?thesis by (simp add: cycle_records)
qed

end
